theory Spec2Isabelle
  imports Complex_Main "HOL-Library.AList"
begin

section \<open>Common data: errors, floats, arrays\<close>

text \<open>
  The Python exceptions the modelled code can raise.
\<close>

datatype error = IndexError | AttributeError

definition bind_res :: "error + 'a \<Rightarrow> ('a \<Rightarrow> error + 'b) \<Rightarrow> error + 'b" where
  \<comment> \<open>sequencing: an exception raised by the first step ends the computation\<close>
  "bind_res m f = (case m of Inl e \<Rightarrow> Inl e | Inr x \<Rightarrow> f x)"

text \<open>
  A Python/NumPy float. Finite values are kept as reals (rounding is not modelled; it is
  monotone and does not change any comparison used below), the three special values of
  IEEE 754 are explicit because \<open>get_weight\<close> produces \<open>np.inf\<close> and multiplies by it.
\<close>

datatype pyfloat = Fin real | PInf | NInf | NaN

fun fgt :: "pyfloat \<Rightarrow> pyfloat \<Rightarrow> bool" where
  "fgt NaN _ = False"
| "fgt _ NaN = False"
| "fgt (Fin x) (Fin y) = (x > y)"
| "fgt PInf PInf = False"
| "fgt PInf _ = True"
| "fgt _ PInf = False"
| "fgt NInf _ = False"
| "fgt (Fin x) NInf = True"

definition flt :: "pyfloat \<Rightarrow> pyfloat \<Rightarrow> bool" where
  "flt a b = fgt b a"

fun feq :: "pyfloat \<Rightarrow> pyfloat \<Rightarrow> bool" where
  "feq (Fin x) (Fin y) = (x = y)"
| "feq PInf PInf = True"
| "feq NInf NInf = True"
| "feq _ _ = False"

definition fle :: "pyfloat \<Rightarrow> pyfloat \<Rightarrow> bool" where
  "fle a b = (flt a b \<or> feq a b)"

fun fsub :: "pyfloat \<Rightarrow> pyfloat \<Rightarrow> pyfloat" where
  "fsub NaN _ = NaN"
| "fsub _ NaN = NaN"
| "fsub (Fin x) (Fin y) = Fin (x - y)"
| "fsub PInf PInf = NaN"
| "fsub NInf NInf = NaN"
| "fsub PInf _ = PInf"
| "fsub NInf _ = NInf"
| "fsub (Fin x) PInf = NInf"
| "fsub (Fin x) NInf = PInf"

fun fadd :: "pyfloat \<Rightarrow> pyfloat \<Rightarrow> pyfloat" where
  "fadd NaN _ = NaN"
| "fadd _ NaN = NaN"
| "fadd (Fin x) (Fin y) = Fin (x + y)"
| "fadd PInf NInf = NaN"
| "fadd NInf PInf = NaN"
| "fadd PInf _ = PInf"
| "fadd NInf _ = NInf"
| "fadd (Fin x) PInf = PInf"
| "fadd (Fin x) NInf = NInf"

definition fsign_mul :: "real \<Rightarrow> pyfloat \<Rightarrow> pyfloat \<Rightarrow> pyfloat" where
  \<comment> \<open>a finite factor \<open>x\<close> times an infinity whose positive and negative versions are given\<close>
  "fsign_mul x pos neg = (if x = 0 then NaN else if x > 0 then pos else neg)"

fun fmul :: "pyfloat \<Rightarrow> pyfloat \<Rightarrow> pyfloat" where
  "fmul NaN _ = NaN"
| "fmul _ NaN = NaN"
| "fmul (Fin x) (Fin y) = Fin (x * y)"
| "fmul (Fin x) PInf = fsign_mul x PInf NInf"
| "fmul (Fin x) NInf = fsign_mul x NInf PInf"
| "fmul PInf (Fin y) = fsign_mul y PInf NInf"
| "fmul NInf (Fin y) = fsign_mul y NInf PInf"
| "fmul PInf PInf = PInf"
| "fmul NInf NInf = PInf"
| "fmul PInf NInf = NInf"
| "fmul NInf PInf = NInf"

definition pymax :: "pyfloat \<Rightarrow> pyfloat \<Rightarrow> pyfloat" where
  \<comment> \<open>Python's builtin \<open>max(a, b)\<close>: keeps \<open>a\<close> unless \<open>b > a\<close>\<close>
  "pymax a b = (if fgt b a then b else a)"

text \<open>
  A two-dimensional NumPy array: its shape and its cells. Cells are addressed by
  non-negative \<open>(row, col)\<close>; \<open>np_index\<close> is NumPy's treatment of one integer index
  (a negative index counts from the end, anything else out of range raises IndexError).
\<close>

type_synonym cell = "int \<times> int"

record 'a ndarray =
  nrows :: nat
  ncols :: nat
  cells :: "cell \<Rightarrow> 'a"

definition np_index :: "nat \<Rightarrow> int \<Rightarrow> int option" where
  "np_index n i =
     (if 0 \<le> i \<and> i < int n then Some i
      else if - int n \<le> i \<and> i < 0 then Some (i + int n)
      else None)"

definition getitem :: "'a ndarray \<Rightarrow> cell \<Rightarrow> error + 'a" where
  "getitem a rc =
     (case np_index (nrows a) (fst rc) of
        None \<Rightarrow> Inl IndexError
      | Some r \<Rightarrow>
          (case np_index (ncols a) (snd rc) of
             None \<Rightarrow> Inl IndexError
           | Some c \<Rightarrow> Inr (cells a (r, c))))"

definition setitem :: "'a ndarray \<Rightarrow> cell \<Rightarrow> 'a \<Rightarrow> error + 'a ndarray" where
  "setitem a rc v =
     (case np_index (nrows a) (fst rc) of
        None \<Rightarrow> Inl IndexError
      | Some r \<Rightarrow>
          (case np_index (ncols a) (snd rc) of
             None \<Rightarrow> Inl IndexError
           | Some c \<Rightarrow> Inr (a\<lparr>cells := (cells a)((r, c) := v)\<rparr>)))"

definition all_cells :: "'a ndarray \<Rightarrow> cell list" where
  \<comment> \<open>every index of the array in row-major order, the order of \<open>np.where\<close>\<close>
  "all_cells a = concat (map (\<lambda>r. map (\<lambda>c. (int r, int c)) [0..<ncols a]) [0..<nrows a])"

definition np_where :: "('a \<Rightarrow> bool) \<Rightarrow> 'a ndarray \<Rightarrow> cell list" where
  "np_where p a = filter (\<lambda>rc. p (cells a rc)) (all_cells a)"

definition of_rows :: "'a \<Rightarrow> 'a list list \<Rightarrow> 'a ndarray" where
  \<comment> \<open>the array written as a list of rows, for concrete inputs\<close>
  "of_rows d xss =
     \<lparr>nrows = length xss, ncols = (case xss of [] \<Rightarrow> 0 | xs # _ \<Rightarrow> length xs),
      cells = (\<lambda>(r, c). if 0 \<le> r \<and> nat r < length xss \<and> 0 \<le> c \<and> nat c < length (xss ! nat r)
                       then xss ! nat r ! nat c else d)\<rparr>"

section \<open>Connector: the edge weight function\<close>

text \<open>
  \<open>Connector.get_weight\<close> (connect.py, lines 124-176). The two elevations and the
  weight are read by index; \<open>max_elevation_diff\<close> is the integer parameter (default 20).
\<close>

definition get_weight ::
  "pyfloat ndarray \<Rightarrow> pyfloat ndarray \<Rightarrow> cell \<Rightarrow> cell \<Rightarrow> int \<Rightarrow> error + pyfloat" where
  "get_weight elevation_grid weight_grid node1 node2 max_elevation_diff =
     bind_res (getitem elevation_grid node1) (\<lambda>elevation1.
     bind_res (getitem elevation_grid node2) (\<lambda>elevation2.
     bind_res (getitem weight_grid node1) (\<lambda>weight.
       (let elevation_diff = pymax (Fin 0) (fsub elevation1 elevation2);
            elevation_diff =
              (if fgt elevation_diff (Fin (of_int max_elevation_diff)) then PInf
               else elevation_diff)
        in if feq elevation_diff (Fin 0) then Inr weight
           else Inr (pymax (fmul weight elevation_diff) elevation_diff)))))"

section \<open>Connector: construction and the grid graph\<close>

text \<open>
  Arrays are objects on a heap, because \<open>Connector.__init__\<close> keeps the caller's
  component grid itself but takes copies of the weight and elevation grids
  (connect.py, lines 40-42). \<open>basin_data\<close> and \<open>connector\<close> hold addresses.
\<close>

type_synonym addr = nat

record heap =
  int_arrays :: "addr \<Rightarrow> int ndarray"
  float_arrays :: "addr \<Rightarrow> pyfloat ndarray"
  next_addr :: addr

definition alloc_float :: "heap \<Rightarrow> pyfloat ndarray \<Rightarrow> heap \<times> addr" where
  \<comment> \<open>a new float array object: \<open>.copy()\<close> and \<open>.astype(...)\<close> both create one\<close>
  "alloc_float h a =
     (h\<lparr>float_arrays := (float_arrays h)(next_addr h := a), next_addr := Suc (next_addr h)\<rparr>,
      next_addr h)"

record basin_data =
  basin_component_grid :: addr
  basin_probability_grid :: addr
  basin_elevation_grid :: addr
  basin_weight_grid :: addr
  main_component :: int

type_synonym graph = "cell \<times> cell \<Rightarrow> pyfloat option"

record connector =
  num_rows :: nat
  num_cols :: nat
  nodes :: "cell list"
  elevation_grid :: addr
  weight_grid :: addr
  component_grid :: addr
  component :: int
  graph :: graph

fun select_nodes ::
  "pyfloat ndarray \<Rightarrow> int ndarray \<Rightarrow> pyfloat \<Rightarrow> cell list \<Rightarrow> error + cell list" where
  "select_nodes probability cg min_probability [] = Inr []"
| "select_nodes probability cg min_probability (rc # rest) =
     bind_res (getitem probability rc) (\<lambda>p.
     bind_res (if fgt p min_probability then Inr True
               else bind_res (getitem cg rc) (\<lambda>c. Inr (c > 0))) (\<lambda>keep.
     bind_res (select_nodes probability cg min_probability rest) (\<lambda>ns.
       Inr (if keep then rc # ns else ns))))"

definition indices :: "int list" where
  "indices = [-1, 0, 1]"

definition edge_pairs :: "cell list \<Rightarrow> cell list \<Rightarrow> (cell \<times> cell) list" where
  \<comment> \<open>the generators and the filter of the comprehension in \<open>add_edges_to_graph\<close>\<close>
  "edge_pairs nodes_list ns =
     concat (map (\<lambda>(row, col).
       concat (map (\<lambda>i.
         concat (map (\<lambda>j. if (row + i, col + j) \<in> set ns
                           then [((row, col), (row + i, col + j))] else [])
                 indices))
         indices))
       nodes_list)"

fun weighted_edges ::
  "pyfloat ndarray \<Rightarrow> pyfloat ndarray \<Rightarrow> (cell \<times> cell) list \<Rightarrow> error + (cell \<times> cell \<times> pyfloat) list" where
  "weighted_edges eg wg [] = Inr []"
| "weighted_edges eg wg ((u, v) # rest) =
     bind_res (get_weight eg wg u v 20) (\<lambda>w.
     bind_res (weighted_edges eg wg rest) (\<lambda>es. Inr ((u, v, w) # es)))"

definition add_weighted_edges_from :: "(cell \<times> cell \<times> pyfloat) list \<Rightarrow> graph \<Rightarrow> graph" where
  \<comment> \<open>\<open>nx.DiGraph.add_weighted_edges_from\<close>: one directed edge per triple\<close>
  "add_weighted_edges_from es g = fold (\<lambda>(u, v, w) g. g((u, v) \<mapsto> w)) es g"

definition add_edges_to_graph ::
  "pyfloat ndarray \<Rightarrow> pyfloat ndarray \<Rightarrow> cell list \<Rightarrow> graph \<Rightarrow> error + graph" where
  \<comment> \<open>called with \<open>nodes_list = None\<close>, so \<open>nodes_list\<close> is \<open>self.nodes\<close>\<close>
  "add_edges_to_graph eg wg ns g =
     bind_res (weighted_edges eg wg (edge_pairs ns ns)) (\<lambda>edges.
       Inr (add_weighted_edges_from edges g))"

definition Connector_init :: "heap \<Rightarrow> basin_data \<Rightarrow> pyfloat \<Rightarrow> error + heap \<times> connector" where
  "Connector_init h basin min_probability =
     (let cg = int_arrays h (basin_component_grid basin);
          probability = float_arrays h (basin_probability_grid basin)
      in bind_res (select_nodes probability cg min_probability (all_cells cg)) (\<lambda>ns.
         let (h1, elevation) = alloc_float h (float_arrays h (basin_elevation_grid basin));
             (h2, weight) = alloc_float h1 (float_arrays h1 (basin_weight_grid basin))
         in bind_res (add_edges_to_graph (float_arrays h2 elevation) (float_arrays h2 weight)
                        ns Map.empty) (\<lambda>g.
              Inr (h2, \<lparr>num_rows = nrows cg, num_cols = ncols cg, nodes = ns,
                        elevation_grid = elevation, weight_grid = weight,
                        component_grid = basin_component_grid basin,
                        component = main_component basin, graph = g\<rparr>))))"

section \<open>Connector: component representatives\<close>

definition np_slice :: "nat \<Rightarrow> int \<Rightarrow> int \<Rightarrow> int list" where
  \<comment> \<open>the indices selected by the slice \<open>start:stop\<close> on an axis of length \<open>n\<close>\<close>
  "np_slice n start stop =
     (let clamp = (\<lambda>i. if i < 0 then max 0 (i + int n) else min i (int n))
      in [clamp start .. clamp stop - 1])"

definition window :: "'a ndarray \<Rightarrow> cell \<Rightarrow> 'a list" where
  \<comment> \<open>the values of \<open>a[row-1:row+2, col-1:col+2]\<close>\<close>
  "window a rc =
     concat (map (\<lambda>r. map (\<lambda>c. cells a (r, c)) (np_slice (ncols a) (snd rc - 1) (snd rc + 2)))
                 (np_slice (nrows a) (fst rc - 1) (fst rc + 2)))"

fun fdiv_count :: "pyfloat \<Rightarrow> nat \<Rightarrow> pyfloat" where
  "fdiv_count (Fin x) n = Fin (x / real n)"
| "fdiv_count v n = v"

definition fmean :: "pyfloat list \<Rightarrow> pyfloat" where
  \<comment> \<open>\<open>ndarray.mean()\<close>; the mean of an empty array is nan\<close>
  "fmean xs = (if xs = [] then NaN else fdiv_count (fold (\<lambda>x acc. fadd acc x) xs (Fin 0)) (length xs))"

definition setdefault :: "'k \<Rightarrow> 'v \<Rightarrow> ('k \<times> 'v) list \<Rightarrow> ('k \<times> 'v) list \<times> 'v" where
  "setdefault k d m = (case map_of m k of Some v \<Rightarrow> (m, v) | None \<Rightarrow> (m @ [(k, d)], d))"

definition min_elevation_step ::
  "int ndarray \<Rightarrow> pyfloat ndarray \<Rightarrow> cell \<Rightarrow> (int \<times> pyfloat \<times> cell) list \<Rightarrow> (int \<times> pyfloat \<times> cell) list" where
  \<comment> \<open>the body of the loop of \<open>get_component_min_elevation_points\<close>\<close>
  "min_elevation_step cg eg rc min_elevation_points =
     (let component = cells cg rc;
          elevation = fmean (window eg rc);
          (m, component_info) = setdefault component (elevation, rc) min_elevation_points
      in if flt elevation (fst component_info)
         then AList.update component (elevation, rc) m
         else m)"

definition get_component_min_elevation_points :: "int ndarray \<Rightarrow> pyfloat ndarray \<Rightarrow> cell list" where
  \<comment> \<open>the returned set of nodes, listed in the order of the dictionary\<close>
  "get_component_min_elevation_points cg eg =
     remdups (map (\<lambda>(k, info). snd info)
       (fold (min_elevation_step cg eg) (np_where (\<lambda>v. v > 0) cg) []))"

section \<open>Connector: stitching paths\<close>

text \<open>
  \<open>nx.multi_source_dijkstra_path\<close> is a library function; it is a parameter of the
  model. It receives what the call passes (the graph, the sources, the cutoff and the
  weight function, which is \<open>get_weight\<close> on the current arrays) and returns the
  dictionary of paths, or raises.
\<close>

type_synonym dijkstra =
  "graph \<Rightarrow> cell list \<Rightarrow> real \<Rightarrow> (cell \<Rightarrow> cell \<Rightarrow> int \<Rightarrow> error + pyfloat) \<Rightarrow> error + (cell \<Rightarrow> cell list option)"

record stitch =
  cgrid :: "int ndarray"
  wgrid :: "pyfloat ndarray"
  sources :: "cell list"
  targets :: "cell list"
  components_seen :: "int set"
  paths_to_return :: "(cell \<times> cell list \<times> nat) list"

fun relabel_path ::
  "int set \<Rightarrow> int \<Rightarrow> cell list \<Rightarrow> int ndarray \<Rightarrow> pyfloat ndarray \<Rightarrow> cell list
   \<Rightarrow> error + int ndarray \<times> pyfloat ndarray \<times> cell list" where
  "relabel_path seen new_component [] cg wg path_to_save = Inr (cg, wg, path_to_save)"
| "relabel_path seen new_component (rc # rest) cg wg path_to_save =
     bind_res (getitem cg rc) (\<lambda>current_component.
       if current_component \<notin> seen then
         bind_res (setitem wg rc (Fin 0)) (\<lambda>wg'.
         bind_res (setitem cg rc new_component) (\<lambda>cg'.
           relabel_path seen new_component rest cg' wg' (path_to_save @ [rc])))
       else Inr (cg, wg, path_to_save))"

definition commit_path :: "nat \<Rightarrow> cell \<times> cell list \<Rightarrow> stitch \<Rightarrow> error + stitch" where
  \<comment> \<open>the body of the loop over \<open>target_paths\<close> (connect.py, lines 103-119)\<close>
  "commit_path i tp s =
     (let target = fst tp; path = snd tp in
      if length path > 0 then
        bind_res (getitem (cgrid s) target) (\<lambda>new_component.
        bind_res (relabel_path (components_seen s) new_component (rev path)
                    (cgrid s) (wgrid s) []) (\<lambda>(cg', wg', path_to_save).
          Inr (s\<lparr>cgrid := cg', wgrid := wg',
                 paths_to_return := AList.update target (path_to_save, i + 3) (paths_to_return s),
                 sources := sources s @ np_where (\<lambda>v. v = new_component) cg',
                 components_seen := insert new_component (components_seen s),
                 targets := removeAll target (targets s)\<rparr>)))
      else Inr s)"

fun fold_res :: "('a \<Rightarrow> 's \<Rightarrow> error + 's) \<Rightarrow> 'a list \<Rightarrow> 's \<Rightarrow> error + 's" where
  "fold_res f [] s = Inr s"
| "fold_res f (x # xs) s = bind_res (f x s) (fold_res f xs)"

definition stitch_stage ::
  "dijkstra \<Rightarrow> graph \<Rightarrow> pyfloat ndarray \<Rightarrow> nat \<Rightarrow> real \<Rightarrow> stitch \<Rightarrow> error + stitch" where
  \<comment> \<open>one pass of the loop over \<open>cut_offs\<close>, up to the test for remaining targets\<close>
  "stitch_stage search g eg i cutoff s =
     bind_res (search g (sources s) cutoff (get_weight eg (wgrid s))) (\<lambda>paths.
       let target_paths =
             map (\<lambda>target. (target, case paths target of None \<Rightarrow> [] | Some p \<Rightarrow> p)) (targets s);
           target_paths = sort_key (\<lambda>x. length (snd x)) target_paths
       in fold_res (commit_path i) target_paths s)"

fun stitch_loop ::
  "dijkstra \<Rightarrow> graph \<Rightarrow> pyfloat ndarray \<Rightarrow> nat \<Rightarrow> real list \<Rightarrow> stitch \<Rightarrow> error + stitch" where
  "stitch_loop search g eg i [] s = Inr s"
| "stitch_loop search g eg i (cutoff # rest) s =
     bind_res (stitch_stage search g eg i cutoff s) (\<lambda>s'.
       if length (targets s') = 0 then Inr s' else stitch_loop search g eg (Suc i) rest s')"

definition get_paths ::
  "dijkstra \<Rightarrow> heap \<Rightarrow> connector \<Rightarrow> real list
   \<Rightarrow> error + heap \<times> (cell \<times> cell list \<times> nat) list \<times> cell list \<times> int set" where
  \<comment> \<open>the arrays are read from the heap at the connector's addresses, and what the loop
      wrote into them is stored back at the same addresses\<close>
  "get_paths search h conn cut_offs =
     (let cg = int_arrays h (component_grid conn);
          wg = float_arrays h (weight_grid conn);
          eg = float_arrays h (elevation_grid conn);
          init_targets = get_component_min_elevation_points cg eg;
          s0 = \<lparr>cgrid = cg, wgrid = wg,
                sources = np_where (\<lambda>v. v = component conn) cg,
                targets = init_targets,
                components_seen = {component conn},
                paths_to_return = []\<rparr>
      in bind_res (stitch_loop search (graph conn) eg 0 cut_offs s0) (\<lambda>s.
           Inr (h\<lparr>int_arrays := (int_arrays h)(component_grid conn := cgrid s),
                  float_arrays := (float_arrays h)(weight_grid conn := wgrid s)\<rparr>,
                paths_to_return s, init_targets, components_seen s)))"

section \<open>Concrete inputs\<close>

text \<open>
  A basin of one row and three cells: the main component 1 on the left, an orphan
  component 2 on the right, an unassigned cell between them.
\<close>

definition example_heap :: heap where
  "example_heap =
     \<lparr>int_arrays = (\<lambda>_. of_rows 0 [])(0 := of_rows 0 [[1, 0, 2]]),
      float_arrays = (\<lambda>_. of_rows (Fin 0) [])
        (1 := of_rows (Fin 0) [[Fin 1, Fin 1, Fin 1]],
         2 := of_rows (Fin 0) [[Fin 3, Fin 3, Fin 3]],
         3 := of_rows (Fin 0) [[Fin 5, Fin 5, Fin 5]]),
      next_addr = 4\<rparr>"

definition example_basin :: basin_data where
  "example_basin =
     \<lparr>basin_component_grid = 0, basin_probability_grid = 1, basin_elevation_grid = 2,
      basin_weight_grid = 3, main_component = 1\<rparr>"

definition example_search :: dijkstra where
  \<comment> \<open>the paths a search from the main component finds in the example basin\<close>
  "example_search g srcs cutoff w =
     Inr (map_of [((0, 0), [(0, 0)]), ((0, 2), [(0, 0), (0, 1), (0, 2)])])"

text \<open>
  The invariant of the loop of \<open>get_component_min_elevation_points\<close> over the cells
  \<open>P\<close> processed so far: the dictionary has one entry per label met, and the node of an
  entry is a processed cell carrying that label.
\<close>

definition minpts_inv :: "int ndarray \<Rightarrow> cell set \<Rightarrow> (int \<times> pyfloat \<times> cell) list \<Rightarrow> bool" where
  "minpts_inv cg P m =
     (distinct (map fst m)
      \<and> (\<forall>k e n. map_of m k = Some (e, n) \<longrightarrow> n \<in> P \<and> cells cg n = k)
      \<and> dom (map_of m) = cells cg ` P)"

text \<open>
  Two relations used to state what stitching preserves: from \<open>s\<close> to \<open>s'\<close> no cell whose
  label was in the seen set has changed its label and the seen set has only grown; and
  every cell of every returned path has the weight zero.
\<close>

definition keeps_seen :: "stitch \<Rightarrow> stitch \<Rightarrow> bool" where
  "keeps_seen s s' =
     ((\<forall>x. cells (cgrid s) x \<in> components_seen s \<longrightarrow> cells (cgrid s') x = cells (cgrid s) x)
      \<and> components_seen s \<subseteq> components_seen s')"

definition zero_paths :: "stitch \<Rightarrow> bool" where
  "zero_paths s =
     (\<forall>(target, path, tag) \<in> set (paths_to_return s).
        \<forall>rc \<in> set path. getitem (wgrid s) rc = Inr (Fin 0))"

text \<open>The stitcher's state at the start of \<open>get_paths\<close> on the example basin.\<close>

definition example_stitch :: stitch where
  "example_stitch =
     \<lparr>cgrid = of_rows 0 [[1, 0, 2]], wgrid = of_rows (Fin 0) [[Fin 5, Fin 5, Fin 5]],
      sources = [(0, 0)], targets = [(0, 0), (0, 2)], components_seen = {1},
      paths_to_return = []\<rparr>"

section \<open>Basic facts about sequencing\<close>

lemma bind_res_Inr [simp]: "bind_res (Inr x) f = f x"
  by (simp add: bind_res_def)

lemma bind_res_Inl [simp]: "bind_res (Inl e) f = Inl e"
  by (simp add: bind_res_def)

lemma bind_res_eq_Inr: "bind_res m f = Inr y \<longleftrightarrow> (\<exists>x. m = Inr x \<and> f x = Inr y)"
  by (cases m) simp_all

lemma fold_res_invariant:
  assumes "\<And>x s s'. f x s = Inr s' \<Longrightarrow> Q s \<Longrightarrow> Q s'"
    and "fold_res f xs s = Inr s'" and "Q s"
  shows "Q s'"
  using assms(2,3)
proof (induction xs arbitrary: s)
  case Nil
  then show ?case by simp
next
  case (Cons x xs)
  from Cons.prems(1) obtain s1 where "f x s = Inr s1" and "fold_res f xs s1 = Inr s'"
    by (auto simp: bind_res_eq_Inr)
  with Cons.IH assms(1) Cons.prems(2) show ?case by blast
qed

section \<open>Vectorizer: the skeleton tracer\<close>

text \<open>
  The state of the tracer is the part of the \<open>Vectorizer\<close> object that tracing reads and
  writes. \<open>connections_seen\<close> is the \<open>defaultdict(set)\<close>: a missing key reads as the empty
  set. The counts are \<open>int16\<close> in the source; they start between 0 and 8 and are only
  ever lowered, one at a time, so they are modelled as integers without wrap-around.
\<close>

record vectorizer =
  clean_embed :: "int ndarray"
  count_grid :: "int ndarray"
  init_count_grid :: "int ndarray"
  connections_seen :: "cell \<Rightarrow> cell set"
  line_strings :: "cell list list"

definition embed_in_larger :: "int ndarray \<Rightarrow> nat \<Rightarrow> int ndarray" where
  \<comment> \<open>zeros of the larger shape, the grid copied into the middle; \<open>side_increase\<close> is
      positive (the only call passes 1)\<close>
  "embed_in_larger grid side_increase =
     \<lparr>nrows = nrows grid + 2 * side_increase, ncols = ncols grid + 2 * side_increase,
      cells = (\<lambda>(r, c).
        if int side_increase \<le> r \<and> r < int (nrows grid + side_increase)
           \<and> int side_increase \<le> c \<and> c < int (ncols grid + side_increase)
        then cells grid (r - int side_increase, c - int side_increase) else 0)\<rparr>"

definition make_count_8_grid :: "int ndarray \<Rightarrow> int ndarray" where
  "make_count_8_grid g =
     (let grid = g\<lparr>cells := (\<lambda>rc. if cells g rc > 0 then 1 else cells g rc)\<rparr>;
          count_grid = grid\<lparr>cells := (\<lambda>rc. 0)\<rparr>
      in fold (\<lambda>rc cnt. cnt\<lparr>cells := (cells cnt)(rc := sum_list (window grid rc) - 1)\<rparr>)
           (np_where (\<lambda>v. v = 1) grid) count_grid)"

definition add_to_connections_seen ::
  "cell \<Rightarrow> cell \<Rightarrow> (cell \<Rightarrow> cell set) \<Rightarrow> (cell \<Rightarrow> cell set)" where
  "add_to_connections_seen node1 node2 seen =
     (let seen1 = seen(node1 := insert node2 (seen node1))
      in seen1(node2 := insert node1 (seen1 node2)))"

definition offsets :: "(int \<times> int) list" where
  "offsets = [(1, 0), (-1, 0), (0, 1), (0, -1), (1, 1), (-1, 1), (1, -1), (-1, -1)]"

fun first_open_neighbour ::
  "int ndarray \<Rightarrow> cell set \<Rightarrow> cell \<Rightarrow> (int \<times> int) list \<Rightarrow> error + cell option" where
  "first_open_neighbour cg seen rc [] = Inr None"
| "first_open_neighbour cg seen rc (ij # rest) =
     (let rc1 = (fst rc + fst ij, snd rc + snd ij) in
      bind_res (getitem cg rc1) (\<lambda>c.
        if c > 0 \<and> rc1 \<notin> seen then Inr (Some rc1)
        else first_open_neighbour cg seen rc rest))"

definition positive_total :: "int ndarray \<Rightarrow> nat" where
  \<comment> \<open>the sum of the positive counts of the grid\<close>
  "positive_total a = (\<Sum>x \<in> set (all_cells a). nat (cells a x))"

lemma bind_res_cong [fundef_cong]:
  "m = m' \<Longrightarrow> (\<And>x. m' = Inr x \<Longrightarrow> f x = f' x) \<Longrightarrow> bind_res m f = bind_res m' f'"
  by (cases m') (simp_all add: bind_res_def)

function investigate_row_col ::
  "vectorizer \<Rightarrow> cell \<Rightarrow> cell list \<Rightarrow> bool \<Rightarrow> error + vectorizer \<times> cell list" where
  "investigate_row_col self rc line_string_list investigate_all =
     bind_res (getitem (count_grid self) rc) (\<lambda>c0.
     bind_res (setitem (count_grid self) rc (c0 - 1)) (\<lambda>cg1.
     bind_res (first_open_neighbour cg1 (connections_seen self rc) rc offsets) (\<lambda>found.
       case found of
         None \<Rightarrow>
           if line_string_list = [] then Inl IndexError
           else Inr (self\<lparr>count_grid := cg1\<rparr>, butlast line_string_list)
       | Some rc1 \<Rightarrow>
           bind_res (getitem cg1 rc1) (\<lambda>c1.
           bind_res (setitem cg1 rc1 (c1 - 1)) (\<lambda>cg2.
           bind_res (getitem (init_count_grid self) rc1) (\<lambda>init1.
             let self2 = self\<lparr>count_grid := cg2,
                   connections_seen := add_to_connections_seen rc rc1 (connections_seen self)\<rparr>
             in if init1 = 1 \<and> \<not> investigate_all then Inr (self2, line_string_list @ [rc1])
                else if init1 = 2 \<and> \<not> investigate_all
                then investigate_row_col self2 rc1 (line_string_list @ [rc1]) investigate_all
                else Inr (self2, line_string_list @ [rc1])))))))"
  by pat_completeness auto

lemma set_all_cells:
  "set (all_cells a) = {(r, c). 0 \<le> r \<and> r < int (nrows a) \<and> 0 \<le> c \<and> c < int (ncols a)}"
proof -
  have "\<exists>n\<in>{0..<k}. r = int n" if "0 \<le> r" and "r < int k" for r k
    using that by (intro bexI [of _ "nat r"]) auto
  then show ?thesis
    unfolding all_cells_def by (auto simp: image_iff)
qed

lemma np_index_range: "np_index n i = Some j \<Longrightarrow> 0 \<le> j \<and> j < int n"
  by (auto simp: np_index_def split: if_splits)

lemma np_index_id: "0 \<le> i \<Longrightarrow> i < int n \<Longrightarrow> np_index n i = Some i"
  by (simp add: np_index_def)

lemma getitem_in_range:
  "rc \<in> set (all_cells a) \<Longrightarrow> getitem a rc = Inr (cells a rc)"
  by (cases rc) (auto simp: set_all_cells getitem_def np_index_id)

lemma setitem_in_range:
  "rc \<in> set (all_cells a) \<Longrightarrow> setitem a rc v = Inr (a\<lparr>cells := (cells a)(rc := v)\<rparr>)"
  by (cases rc) (auto simp: set_all_cells setitem_def np_index_id)

lemma positive_total_update:
  assumes "x \<in> set (all_cells a)"
  shows "positive_total (a\<lparr>cells := (cells a)(x := v)\<rparr>) + nat (cells a x)
           = positive_total a + nat v"
proof -
  have same: "all_cells (a\<lparr>cells := (cells a)(x := v)\<rparr>) = all_cells a"
    by (simp add: all_cells_def)
  have "positive_total (a\<lparr>cells := (cells a)(x := v)\<rparr>)
      = nat v + (\<Sum>y \<in> set (all_cells a) - {x}. nat (cells a y))"
    unfolding positive_total_def same using assms
    by (subst sum.remove [of _ x]) simp_all
  moreover have "positive_total a = nat (cells a x) + (\<Sum>y \<in> set (all_cells a) - {x}. nat (cells a y))"
    unfolding positive_total_def using assms by (subst sum.remove [of _ x]) simp_all
  ultimately show ?thesis by simp
qed

lemma positive_total_setitem:
  assumes "setitem a rc v = Inr a'" and "getitem a rc = Inr c"
  shows "positive_total a' + nat c = positive_total a + nat v"
proof -
  from assms(1) obtain r k where rk: "np_index (nrows a) (fst rc) = Some r"
    "np_index (ncols a) (snd rc) = Some k" and a': "a' = a\<lparr>cells := (cells a)((r, k) := v)\<rparr>"
    by (auto simp: setitem_def split: option.splits)
  from rk have "(r, k) \<in> set (all_cells a)"
    by (auto simp: set_all_cells dest: np_index_range)
  moreover from assms(2) rk have "c = cells a (r, k)"
    by (simp add: getitem_def)
  ultimately show ?thesis
    using positive_total_update [of "(r, k)" a v] by (simp add: a')
qed

lemma first_open_neighbour_Some:
  "first_open_neighbour cg seen rc offs = Inr (Some rc1) \<Longrightarrow>
     (\<exists>c. getitem cg rc1 = Inr c \<and> c > 0) \<and> rc1 \<notin> seen
     \<and> rc1 \<in> set (map (\<lambda>ij. (fst rc + fst ij, snd rc + snd ij)) offs)"
proof (induction offs)
  case Nil
  then show ?case by simp
next
  case (Cons ij rest)
  then show ?case
    by (auto simp: Let_def bind_res_eq_Inr split: if_splits)
qed

termination investigate_row_col
proof (relation "measure (\<lambda>(self, rc, chain, investigate_all). positive_total (count_grid self))")
  show "wf (measure (\<lambda>(self, rc, chain, investigate_all). positive_total (count_grid self)))"
    by simp
next
  fix self :: vectorizer and rc :: cell and line_string_list :: "cell list"
    and investigate_all c0 cg1 found rc1 c1 cg2 init1 self2
  assume c0: "getitem (count_grid self) rc = Inr c0"
    and s1: "setitem (count_grid self) rc (c0 - 1) = Inr cg1"
    and f: "first_open_neighbour cg1 (connections_seen self rc) rc offsets = Inr found"
      "found = Some rc1"
    and c1: "getitem cg1 rc1 = Inr c1"
    and s2: "setitem cg1 rc1 (c1 - 1) = Inr cg2"
    and self2: "self2 = self\<lparr>count_grid := cg2,
        connections_seen := add_to_connections_seen rc rc1 (connections_seen self)\<rparr>"
  from f c1 have pos: "c1 > 0"
    using first_open_neighbour_Some [of cg1 "connections_seen self rc" rc offsets rc1] by auto
  from positive_total_setitem [OF s1 c0] have "positive_total cg1 \<le> positive_total (count_grid self)"
    by linarith
  moreover from positive_total_setitem [OF s2 c1] pos have "positive_total cg2 < positive_total cg1"
    by linarith
  ultimately show "((self2, rc1, line_string_list @ [rc1], investigate_all),
      (self, rc, line_string_list, investigate_all))
    \<in> measure (\<lambda>(self, rc, chain, investigate_all). positive_total (count_grid self))"
    by (simp add: self2)
qed

declare investigate_row_col.simps [simp del]

definition np_any :: "('a \<Rightarrow> bool) \<Rightarrow> 'a ndarray \<Rightarrow> bool" where
  "np_any p a = list_ex (\<lambda>rc. p (cells a rc)) (all_cells a)"

definition linestring_starting_at_1 :: "bool \<Rightarrow> cell \<Rightarrow> vectorizer \<Rightarrow> error + vectorizer" where
  \<comment> \<open>the body of the loop of \<open>make_all_linestrings_starting_at_1\<close>; the chain is appended
      to \<open>line_strings\<close> before it is extended in the source, and it is the same list
      object, so the list ends up holding the extended chain\<close>
  "linestring_starting_at_1 investigate_all rc self =
     bind_res (getitem (count_grid self) rc) (\<lambda>c.
       if c = 1 then
         bind_res (investigate_row_col self rc [rc] investigate_all) (\<lambda>(self', line_string_list).
           Inr (self'\<lparr>line_strings := line_strings self' @ [line_string_list]\<rparr>))
       else Inr self)"

definition make_all_linestrings_starting_at_1 :: "vectorizer \<Rightarrow> bool \<Rightarrow> error + vectorizer" where
  "make_all_linestrings_starting_at_1 self investigate_all =
     fold_res (linestring_starting_at_1 investigate_all)
       (np_where (\<lambda>v. v = 1) (count_grid self)) self"

definition linestring_starting_at_2 :: "cell \<Rightarrow> vectorizer \<Rightarrow> error + vectorizer" where
  \<comment> \<open>the body of the loop of \<open>make_all_linestrings_starting_at_2\<close>\<close>
  "linestring_starting_at_2 rc self =
     bind_res (getitem (count_grid self) rc) (\<lambda>c.
     bind_res (if c > 0 then investigate_row_col self rc [rc] False
               else Inr (self, [rc])) (\<lambda>(self1, chain1).
     bind_res (getitem (count_grid self1) rc) (\<lambda>c'.
     bind_res (if c' > 0 then investigate_row_col self1 rc (rev chain1) False
               else Inr (self1, chain1)) (\<lambda>(self2, chain2).
       Inr (if length chain2 > 1
            then self2\<lparr>line_strings := line_strings self2 @ [chain2]\<rparr> else self2)))))"

definition make_all_linestrings_starting_at_2 :: "vectorizer \<Rightarrow> bool \<Rightarrow> error + vectorizer" where
  "make_all_linestrings_starting_at_2 self ignore_init =
     fold_res linestring_starting_at_2
       (if ignore_init then np_where (\<lambda>v. v = 2) (count_grid self)
        else filter (\<lambda>rc. cells (count_grid self) rc = 2 \<and> cells (init_count_grid self) rc = 2)
               (all_cells (count_grid self)))
       self"

definition linestring_remaining :: "cell \<Rightarrow> vectorizer \<Rightarrow> error + vectorizer" where
  \<comment> \<open>the body of the inner loop of \<open>add_remaining\<close>\<close>
  "linestring_remaining rc self =
     bind_res (investigate_row_col self rc [rc] True) (\<lambda>(self', line_string_list).
       Inr (self'\<lparr>line_strings := line_strings self' @ [line_string_list]\<rparr>))"

text \<open>How a step of the tracer changes the sum of the positive counts.\<close>

lemma investigate_row_col_total:
  "investigate_row_col self rc chain investigate_all = Inr (self', chain') \<Longrightarrow>
     positive_total (count_grid self') \<le> positive_total (count_grid self)
     \<and> (\<forall>c0. getitem (count_grid self) rc = Inr c0 \<and> c0 > 0 \<longrightarrow>
           positive_total (count_grid self') < positive_total (count_grid self))"
proof (induction self rc chain investigate_all arbitrary: self' chain'
    rule: investigate_row_col.induct)
  case (1 self rc line_string_list investigate_all)
  from "1.prems" obtain c0 cg1 found where
    c0: "getitem (count_grid self) rc = Inr c0"
    and s1: "setitem (count_grid self) rc (c0 - 1) = Inr cg1"
    and f: "first_open_neighbour cg1 (connections_seen self rc) rc offsets = Inr found"
    by (subst (asm) investigate_row_col.simps) (auto simp: bind_res_eq_Inr)
  from positive_total_setitem [OF s1 c0]
  have le1: "positive_total cg1 \<le> positive_total (count_grid self)"
    and lt1: "c0 > 0 \<Longrightarrow> positive_total cg1 < positive_total (count_grid self)"
    by linarith+
  have "positive_total (count_grid self') \<le> positive_total cg1"
  proof (cases found)
    case None
    with "1.prems" c0 s1 f show ?thesis
      by (subst (asm) investigate_row_col.simps) (auto split: if_splits)
  next
    case (Some rc1)
    with "1.prems" c0 s1 f obtain c1 cg2 init1 where
      c1: "getitem cg1 rc1 = Inr c1" and s2: "setitem cg1 rc1 (c1 - 1) = Inr cg2"
      and i1: "getitem (init_count_grid self) rc1 = Inr init1"
      by (subst (asm) investigate_row_col.simps) (auto simp: bind_res_eq_Inr)
    define self2 where "self2 = self\<lparr>count_grid := cg2,
        connections_seen := add_to_connections_seen rc rc1 (connections_seen self)\<rparr>"
    from positive_total_setitem [OF s2 c1]
    have le2: "positive_total cg2 \<le> positive_total cg1" by linarith
    show ?thesis
    proof (cases "init1 = 2 \<and> \<not> investigate_all")
      case True
      with "1.prems" c0 s1 f Some c1 s2 i1
      have rec: "investigate_row_col self2 rc1 (line_string_list @ [rc1]) investigate_all
          = Inr (self', chain')"
        by (subst (asm) investigate_row_col.simps) (simp add: self2_def Let_def)
      from "1.IH" [OF c0 s1 f Some c1 s2 i1 self2_def _ _ rec] True
      have "positive_total (count_grid self') \<le> positive_total (count_grid self2)"
        by simp
      with le2 show ?thesis by (simp add: self2_def)
    next
      case False
      with "1.prems" c0 s1 f Some c1 s2 i1 have "count_grid self' = cg2"
        by (subst (asm) investigate_row_col.simps) (auto simp: Let_def split: if_splits)
      with le2 show ?thesis by simp
    qed
  qed
  with le1 lt1 c0 show ?case by auto
qed

lemma np_any_where:
  assumes "np_any p a"
  obtains x xs where "np_where p a = x # xs" and "p (cells a x)" and "x \<in> set (all_cells a)"
proof -
  from assms have "np_where p a \<noteq> []"
    by (auto simp: np_any_def np_where_def list_ex_iff filter_empty_conv)
  then obtain x xs where e: "np_where p a = x # xs" by (cases "np_where p a") auto
  then have "x \<in> set (np_where p a)" by simp
  then have "p (cells a x)" "x \<in> set (all_cells a)" by (auto simp: np_where_def)
  with e that show ?thesis by blast
qed

lemma linestring_starting_at_1_total:
  assumes "linestring_starting_at_1 investigate_all rc self = Inr self'"
  shows "positive_total (count_grid self') \<le> positive_total (count_grid self)
    \<and> (getitem (count_grid self) rc = Inr 1 \<longrightarrow>
          positive_total (count_grid self') < positive_total (count_grid self))"
proof -
  from assms obtain c where c: "getitem (count_grid self) rc = Inr c"
    by (auto simp: linestring_starting_at_1_def bind_res_eq_Inr)
  show ?thesis
  proof (cases "c = 1")
    case False
    with assms c show ?thesis by (simp add: linestring_starting_at_1_def)
  next
    case True
    with assms c obtain s1 chain where
      i: "investigate_row_col self rc [rc] investigate_all = Inr (s1, chain)"
      and s': "count_grid self' = count_grid s1"
      by (auto simp: linestring_starting_at_1_def bind_res_eq_Inr)
    from investigate_row_col_total [OF i] c True show ?thesis
      by (simp add: s')
  qed
qed

lemma linestring_remaining_total:
  assumes "linestring_remaining rc self = Inr self'"
  shows "positive_total (count_grid self') \<le> positive_total (count_grid self)
    \<and> (\<forall>c. getitem (count_grid self) rc = Inr c \<and> c > 0 \<longrightarrow>
          positive_total (count_grid self') < positive_total (count_grid self))"
proof -
  from assms obtain s1 chain where
    i: "investigate_row_col self rc [rc] True = Inr (s1, chain)"
    and s': "count_grid self' = count_grid s1"
    by (auto simp: linestring_remaining_def bind_res_eq_Inr)
  from investigate_row_col_total [OF i] show ?thesis
    by (simp add: s')
qed

lemma fold_res_total:
  assumes "\<And>x s s'. f x s = Inr s' \<Longrightarrow>
      positive_total (count_grid s') \<le> positive_total (count_grid s)"
    and "fold_res f xs s = Inr s'"
  shows "positive_total (count_grid s') \<le> positive_total (count_grid s)"
  by (rule fold_res_invariant
      [where Q = "\<lambda>t. positive_total (count_grid t) \<le> positive_total (count_grid s)",
        OF _ assms(2)])
     (use assms(1) in \<open>fastforce, simp\<close>)

lemma make_all_linestrings_starting_at_1_total:
  assumes "np_any (\<lambda>v. v = 1) (count_grid self)"
    and "make_all_linestrings_starting_at_1 self investigate_all = Inr self'"
  shows "positive_total (count_grid self') < positive_total (count_grid self)"
proof -
  from assms(1) obtain x xs where
    w: "np_where (\<lambda>v. v = 1) (count_grid self) = x # xs"
    and x: "cells (count_grid self) x = 1" "x \<in> set (all_cells (count_grid self))"
    by (rule np_any_where)
  from assms(2) w obtain s1 where
    first: "linestring_starting_at_1 investigate_all x self = Inr s1"
    and rest: "fold_res (linestring_starting_at_1 investigate_all) xs s1 = Inr self'"
    by (auto simp: make_all_linestrings_starting_at_1_def bind_res_eq_Inr)
  from x have "getitem (count_grid self) x = Inr 1"
    by (simp add: getitem_in_range)
  with linestring_starting_at_1_total [OF first]
  have "positive_total (count_grid s1) < positive_total (count_grid self)" by simp
  moreover have "positive_total (count_grid self') \<le> positive_total (count_grid s1)"
    by (rule fold_res_total [OF _ rest]) (simp add: linestring_starting_at_1_total)
  ultimately show ?thesis by simp
qed

lemma remaining_sweep_total:
  assumes "np_any (\<lambda>v. v > 0) (count_grid self)"
    and "fold_res linestring_remaining (np_where (\<lambda>v. v \<ge> 1) (count_grid self)) self = Inr self'"
  shows "positive_total (count_grid self') < positive_total (count_grid self)"
proof -
  have "(\<lambda>v::int. v \<ge> 1) = (\<lambda>v. v > 0)"
    by auto
  with assms(1) have "np_any (\<lambda>v. v \<ge> 1) (count_grid self)"
    by simp
  then obtain x xs where
    w: "np_where (\<lambda>v. v \<ge> 1) (count_grid self) = x # xs"
    and x: "cells (count_grid self) x \<ge> 1" "x \<in> set (all_cells (count_grid self))"
    by (rule np_any_where)
  from assms(2) w obtain s1 where
    first: "linestring_remaining x self = Inr s1"
    and rest: "fold_res linestring_remaining xs s1 = Inr self'"
    by (auto simp: bind_res_eq_Inr)
  from x have "getitem (count_grid self) x = Inr (cells (count_grid self) x)"
    by (simp add: getitem_in_range)
  with linestring_remaining_total [OF first] x(1)
  have "positive_total (count_grid s1) < positive_total (count_grid self)" by simp
  moreover have "positive_total (count_grid self') \<le> positive_total (count_grid s1)"
    by (rule fold_res_total [OF _ rest]) (simp add: linestring_remaining_total)
  ultimately show ?thesis by simp
qed

function while_any_count_is_1 :: "vectorizer \<Rightarrow> error + vectorizer" where
  \<comment> \<open>\<open>while np.any(self.count_grid == 1): self.make_all_linestrings_starting_at_1()\<close>\<close>
  "while_any_count_is_1 self =
     (if np_any (\<lambda>v. v = 1) (count_grid self)
      then bind_res (make_all_linestrings_starting_at_1 self False) while_any_count_is_1
      else Inr self)"
  by pat_completeness auto

termination
  by (relation "measure (\<lambda>self. positive_total (count_grid self))")
     (auto dest: make_all_linestrings_starting_at_1_total)

declare while_any_count_is_1.simps [simp del]

function add_remaining :: "vectorizer \<Rightarrow> error + vectorizer" where
  "add_remaining self =
     (if np_any (\<lambda>v. v > 0) (count_grid self)
      then bind_res (fold_res linestring_remaining
                       (np_where (\<lambda>v. v \<ge> 1) (count_grid self)) self) add_remaining
      else Inr self)"
  by pat_completeness auto

termination
  by (relation "measure (\<lambda>self. positive_total (count_grid self))")
     (auto dest: remaining_sweep_total)

declare add_remaining.simps [simp del]

definition make_all_simple_linestrings :: "vectorizer \<Rightarrow> error + vectorizer" where
  "make_all_simple_linestrings self =
     bind_res (while_any_count_is_1 self) (\<lambda>self1.
     bind_res (make_all_linestrings_starting_at_2 self1 False) (\<lambda>self2.
     bind_res (while_any_count_is_1 self2) add_remaining))"

definition neighbours :: "cell \<Rightarrow> cell list" where
  "neighbours rc = map (\<lambda>ij. (fst rc + fst ij, snd rc + snd ij)) offsets"

definition mask :: "vectorizer \<Rightarrow> cell \<Rightarrow> bool" where
  "mask self x = (cells (clean_embed self) x > 0)"

definition open_neighbours :: "vectorizer \<Rightarrow> cell \<Rightarrow> cell list" where
  \<comment> \<open>the mask cells next to \<open>x\<close> whose edge to \<open>x\<close> has not been consumed\<close>
  "open_neighbours self x =
     filter (\<lambda>y. mask self y \<and> y \<notin> connections_seen self x) (neighbours x)"

definition interior :: "'a ndarray \<Rightarrow> cell \<Rightarrow> bool" where
  "interior a x = (1 \<le> fst x \<and> fst x + 1 < int (nrows a) \<and> 1 \<le> snd x \<and> snd x + 1 < int (ncols a))"

definition tracer_inv :: "vectorizer \<Rightarrow> bool" where
  "tracer_inv self =
     (nrows (count_grid self) = nrows (clean_embed self)
      \<and> ncols (count_grid self) = ncols (clean_embed self)
      \<and> nrows (init_count_grid self) = nrows (clean_embed self)
      \<and> ncols (init_count_grid self) = ncols (clean_embed self)
      \<and> (\<forall>x. mask self x \<longrightarrow> interior (clean_embed self) x)
      \<and> (\<forall>x. \<not> mask self x \<longrightarrow> cells (count_grid self) x = 0)
      \<and> (\<forall>x y. y \<in> connections_seen self x \<longrightarrow> x \<in> connections_seen self y)
      \<and> (\<forall>x. mask self x \<longrightarrow>
            (if open_neighbours self x = [] then cells (count_grid self) x \<le> 0
             else cells (count_grid self) x = int (length (open_neighbours self x)))))"

definition same_frame :: "vectorizer \<Rightarrow> vectorizer \<Rightarrow> bool" where
  \<comment> \<open>what tracing never changes\<close>
  "same_frame self self' =
     (clean_embed self' = clean_embed self \<and> init_count_grid self' = init_count_grid self)"

definition traced :: "vectorizer \<Rightarrow> vectorizer \<Rightarrow> bool" where
  \<comment> \<open>\<open>self'\<close> is a state of the tracer started in \<open>self\<close>\<close>
  "traced self self' = (tracer_inv self' \<and> same_frame self self')"

definition initial_vectorizer :: "int ndarray \<Rightarrow> vectorizer" where
  \<comment> \<open>the tracer's state as \<open>Vectorizer.__init__\<close> sets it up (lines 20-29)\<close>
  "initial_vectorizer thin_grid =
     (let thin = thin_grid\<lparr>cells := (\<lambda>rc. if cells thin_grid rc = 2 then 0 else cells thin_grid rc)\<rparr>;
          embed = embed_in_larger thin 1;
          counts = make_count_8_grid embed
      in \<lparr>clean_embed = embed, count_grid = counts, init_count_grid = counts,
          connections_seen = (\<lambda>rc. {}), line_strings = []\<rparr>)"

definition trace_skeleton :: "int ndarray \<Rightarrow> error + vectorizer" where
  \<comment> \<open>\<open>Vectorizer.__init__\<close> up to and including \<open>make_all_simple_linestrings\<close>\<close>
  "trace_skeleton thin_grid = make_all_simple_linestrings (initial_vectorizer thin_grid)"

definition count_total :: "int ndarray \<Rightarrow> int" where
  \<comment> \<open>the sum of all the counts of the grid\<close>
  "count_total a = (\<Sum>x \<in> set (all_cells a). cells a x)"

definition counts_floor :: "int ndarray \<Rightarrow> bool" where
  \<comment> \<open>no count of the grid is below -1\<close>
  "counts_floor a = (\<forall>x \<in> set (all_cells a). cells a x \<ge> - 1)"

definition chain_edges :: "cell list \<Rightarrow> (cell \<times> cell) list" where
  \<comment> \<open>the consecutive pairs of a chain\<close>
  "chain_edges chain = zip chain (tl chain)"

definition emitted_chains :: "vectorizer \<Rightarrow> cell list list" where
  \<comment> \<open>the chains that become lines: \<open>make_shapely_line_strings\<close> drops those with fewer
      than two cells\<close>
  "emitted_chains self = filter (\<lambda>chain. length chain > 1) (line_strings self)"

definition edge_occurrences :: "cell list list \<Rightarrow> cell \<Rightarrow> cell \<Rightarrow> nat" where
  \<comment> \<open>how often the unordered pair of cells occurs as a consecutive pair of the chains\<close>
  "edge_occurrences css a b =
     length (filter (\<lambda>e. e = (a, b) \<or> e = (b, a)) (concat (map chain_edges css)))"

definition mask_adjacent :: "int ndarray \<Rightarrow> cell \<Rightarrow> cell \<Rightarrow> bool" where
  \<comment> \<open>two different mask cells that touch by a side or a corner\<close>
  "mask_adjacent grid a b =
     (cells grid a > 0 \<and> cells grid b > 0 \<and> a \<noteq> b
      \<and> \<bar>fst a - fst b\<bar> \<le> 1 \<and> \<bar>snd a - snd b\<bar> \<le> 1)"

definition loop_mask :: "int ndarray" where
  \<comment> \<open>a closed loop of four cells, each touching its two neighbours by a corner\<close>
  "loop_mask = of_rows 0 [[0, 1, 0], [1, 0, 1], [0, 1, 0]]"

definition junction_mask :: "int ndarray" where
  \<comment> \<open>a T-shaped skeleton\<close>
  "junction_mask = of_rows 0 [[0, 0, 1, 0, 0], [0, 0, 1, 0, 0], [1, 1, 1, 1, 1]]"

section \<open>Vectorizer: the geometry assembler\<close>

text \<open>
  Lines are lists of world coordinates. The Shapely operations are library functions and
  are parameters of the model: \<open>merge_and_node\<close> stands for \<open>line_merge\<close> followed by
  \<open>node\<close> and the listing of the resulting geometries, \<open>unary_union\<close> for the union and
  the listing of its geometries.
\<close>

type_synonym coord = "real \<times> real"

type_synonym linestring = "coord list"

record geo_transform =
  x_min :: real
  y_max :: real
  x_res :: real
  y_res :: real

record connection =
  line :: linestring
  point :: coord

definition row_col_array_to_midpoint_coordinates :: "geo_transform \<Rightarrow> cell list \<Rightarrow> linestring" where
  "row_col_array_to_midpoint_coordinates geo row_col_array =
     (let y_resolution = (if y_res geo < 0 then - y_res geo else y_res geo)
      in map (\<lambda>(row, col). (x_min geo + x_res geo * (real_of_int col + 1/2),
                             y_max geo - y_resolution * (real_of_int row + 1/2)))
           row_col_array)"

definition make_shapely_line_strings ::
  "geo_transform \<Rightarrow> (linestring list \<Rightarrow> linestring list) \<Rightarrow> cell list list \<Rightarrow> linestring list" where
  "make_shapely_line_strings geo merge_and_node row_col_lists =
     merge_and_node
       (map (row_col_array_to_midpoint_coordinates geo)
          (filter (\<lambda>row_col_array. length row_col_array > 1)
             (map (map (\<lambda>(row, col). (row - 1, col - 1))) row_col_lists)))"

text \<open>
  \<open>connect_to_base_waterways\<close> reads the attribute \<open>self.connecting_dict\<close>. The argument
  \<open>connecting_dict\<close> is that attribute: \<open>None\<close> when the object has no such attribute,
  and then reading it raises AttributeError.
\<close>

definition splice ::
  "(coord \<Rightarrow> connection option) \<Rightarrow> linestring \<Rightarrow> coord list \<Rightarrow> linestring list \<times> coord list" where
  \<comment> \<open>the four cases on the head and tail of one line: the lines to add, and the
      intersection points\<close>
  "splice d line_string intersection_points =
     (let head_coords = hd line_string; tail_coords = last line_string in
      if head_coords \<in> dom d \<and> tail_coords \<in> dom d then ([], intersection_points)
      else if head_coords \<in> dom d
        then ([line_string, line (the (d head_coords))],
              intersection_points @ [point (the (d head_coords))])
      else if tail_coords \<in> dom d
        then ([line_string, line (the (d tail_coords))],
              intersection_points @ [point (the (d tail_coords))])
      else (case find (\<lambda>coords. coords \<in> dom d) line_string of
              None \<Rightarrow> ([line_string], intersection_points)
            | Some coords \<Rightarrow> ([line_string, line (the (d coords))],
                              intersection_points @ [point (the (d coords))])))"

fun connect_lines ::
  "(coord \<Rightarrow> connection option) option \<Rightarrow> (linestring list \<Rightarrow> linestring list)
   \<Rightarrow> linestring list \<Rightarrow> linestring list \<times> coord list
   \<Rightarrow> error + linestring list \<times> coord list" where
  "connect_lines connecting_dict unary_union [] acc = Inr acc"
| "connect_lines connecting_dict unary_union (line_string # rest) (new_linestrings, intersection_points) =
     (if line_string = [] then Inl IndexError
      else case connecting_dict of
        None \<Rightarrow> Inl AttributeError
      | Some d \<Rightarrow>
          (let (to_add, points) = splice d line_string intersection_points
           in connect_lines connecting_dict unary_union rest
                (if length to_add > 0 then new_linestrings @ unary_union to_add
                 else new_linestrings, points)))"

definition connect_to_base_waterways ::
  "(coord \<Rightarrow> connection option) option \<Rightarrow> (linestring list \<Rightarrow> linestring list)
   \<Rightarrow> linestring list \<Rightarrow> linestring list
   \<Rightarrow> error + (bool \<times> linestring) list \<times> coord list" where
  \<comment> \<open>the result: the rows \<open>(from_tdx, geometry)\<close> of the final table, the reference lines
      first, and the intersection points\<close>
  "connect_to_base_waterways connecting_dict unary_union reference_waterway_data lines =
     bind_res (connect_lines connecting_dict unary_union lines ([], [])) (\<lambda>(new_linestrings, points).
       Inr (map (\<lambda>geometry. (True, geometry)) reference_waterway_data
              @ map (\<lambda>geometry. (False, geometry)) new_linestrings, points))"

definition Vectorizer_init ::
  "int ndarray \<Rightarrow> linestring list \<Rightarrow> geo_transform
   \<Rightarrow> (linestring list \<Rightarrow> linestring list) \<Rightarrow> (linestring list \<Rightarrow> linestring list)
   \<Rightarrow> error + (bool \<times> linestring) list \<times> coord list" where
  \<comment> \<open>\<open>Vectorizer.__init__\<close>: no statement of the class assigns \<open>connecting_dict\<close> (the
      assignment on line 21 is commented out), so the attribute is absent\<close>
  "Vectorizer_init thin_grid reference_waterway_data geo merge_and_node unary_union =
     bind_res (trace_skeleton thin_grid) (\<lambda>self.
       connect_to_base_waterways None unary_union reference_waterway_data
         (make_shapely_line_strings geo merge_and_node (line_strings self)))"

section \<open>Properties of the edge weight function\<close>

text \<open>
  Claim C3: whenever the elevation of \<open>node1\<close> exceeds that of \<open>node2\<close> by more than
  \<open>max_elevation_diff\<close>, \<open>get_weight\<close> returns plus infinity, whatever the weight at
  \<open>node1\<close>, zero included. The code does not: with the weight 0 (the value the stitcher
  itself writes for committed cells) and elevations 21 and 0, the product \<open>0 * inf\<close> is
  nan, and \<open>max(nan, inf)\<close> keeps the nan.
\<close>

theorem get_weight_zero_weight_is_nan:
  "get_weight (of_rows (Fin 0) [[Fin 21, Fin 0]]) (of_rows (Fin 0) [[Fin 0, Fin 1]])
     (0, 0) (0, 1) 20 = Inr NaN"
  by (simp add: get_weight_def getitem_def np_index_def of_rows_def pymax_def fsign_mul_def)

text \<open>
  Claim C4, as stated: for a fixed non-negative weight the cost never decreases when
  the elevation difference grows from 0 upward. It fails at the step away from 0: with
  the weight 5 at \<open>node1\<close>, the neighbour at the same elevation (difference 0) costs 5,
  the neighbour half a unit lower (difference 1/2) costs 5/2.
\<close>

theorem get_weight_drops_after_zero_diff:
  "get_weight (of_rows (Fin 0) [[Fin (1/2), Fin (1/2), Fin 0]])
              (of_rows (Fin 0) [[Fin 5, Fin 1, Fin 1]]) (0, 0) (0, 1) 20 = Inr (Fin 5)
   \<and> get_weight (of_rows (Fin 0) [[Fin (1/2), Fin (1/2), Fin 0]])
              (of_rows (Fin 0) [[Fin 5, Fin 1, Fin 1]]) (0, 0) (0, 2) 20 = Inr (Fin (5/2))
   \<and> \<not> fle (Fin 5) (Fin (5/2))"
  by (simp add: get_weight_def getitem_def np_index_def of_rows_def pymax_def fle_def flt_def)

text \<open>
  Claim C4, amended. At the elevation difference 0 (the drop from \<open>node1\<close> to \<open>node2\<close>
  is not positive) the cost is the weight at \<open>node1\<close> itself, whatever that weight is.
  Over the positive differences the cost is non-decreasing for a fixed non-negative
  finite weight: if the drop from \<open>node1\<close> to \<open>node2\<close> is positive and the drop to
  \<open>node3\<close> is at least as large, then the cost towards \<open>node3\<close> is at least the cost
  towards \<open>node2\<close>. The case of a zero weight with a drop above \<open>max_elevation_diff\<close>
  is left out.
\<close>

theorem get_weight_monotone_on_positive_diff:
  "(getitem eg node1 = Inr e1 \<and> getitem eg node2 = Inr e2 \<and> getitem wg node1 = Inr wv
      \<and> \<not> fgt (fsub e1 e2) (Fin 0) \<and> 0 \<le> m
    \<longrightarrow> get_weight eg wg node1 node2 m = Inr wv)
   \<and> (getitem eg node1 = Inr (Fin a) \<and> getitem eg node2 = Inr (Fin b)
      \<and> getitem eg node3 = Inr (Fin c) \<and> getitem wg node1 = Inr (Fin w)
      \<and> 0 \<le> w \<and> 0 < a - b \<and> a - b \<le> a - c \<and> (0 < w \<or> a - c \<le> real_of_int m)
    \<longrightarrow> (\<exists>x y. get_weight eg wg node1 node2 m = Inr x
           \<and> get_weight eg wg node1 node3 m = Inr y \<and> fle x y))"
proof (intro conjI impI)
  assume "getitem eg node1 = Inr e1 \<and> getitem eg node2 = Inr e2 \<and> getitem wg node1 = Inr wv
      \<and> \<not> fgt (fsub e1 e2) (Fin 0) \<and> 0 \<le> m"
  then show "get_weight eg wg node1 node2 m = Inr wv"
    by (simp add: get_weight_def pymax_def Let_def)
next
  assume h: "getitem eg node1 = Inr (Fin a) \<and> getitem eg node2 = Inr (Fin b)
      \<and> getitem eg node3 = Inr (Fin c) \<and> getitem wg node1 = Inr (Fin w)
      \<and> 0 \<le> w \<and> 0 < a - b \<and> a - b \<le> a - c \<and> (0 < w \<or> a - c \<le> real_of_int m)"
  then have prod: "w * (a - b) \<le> w * (a - c)"
    by (simp add: mult_left_mono)
  show "\<exists>x y. get_weight eg wg node1 node2 m = Inr x
           \<and> get_weight eg wg node1 node3 m = Inr y \<and> fle x y"
    using h prod
    by (auto simp: get_weight_def pymax_def fle_def flt_def fsign_mul_def Let_def)
qed

text \<open>
  The hypotheses hold for a cell of elevation 2 and weight 5 whose neighbours have the
  elevations 2, 1 and 0: the neighbour at the same elevation costs the weight 5, and
  the costs towards the other two are 5 and 10.
\<close>

theorem get_weight_monotone_on_positive_diff_witness:
  "get_weight (of_rows (Fin 0) [[Fin 2, Fin 2, Fin 1, Fin 0]])
              (of_rows (Fin 0) [[Fin 5, Fin 1, Fin 1, Fin 1]]) (0, 0) (0, 1) 20 = Inr (Fin 5)
   \<and> (\<exists>x y. get_weight (of_rows (Fin 0) [[Fin 2, Fin 2, Fin 1, Fin 0]])
                     (of_rows (Fin 0) [[Fin 5, Fin 1, Fin 1, Fin 1]]) (0, 0) (0, 2) 20 = Inr x
       \<and> get_weight (of_rows (Fin 0) [[Fin 2, Fin 2, Fin 1, Fin 0]])
                     (of_rows (Fin 0) [[Fin 5, Fin 1, Fin 1, Fin 1]]) (0, 0) (0, 3) 20 = Inr y
       \<and> fle x y)"
  using get_weight_monotone_on_positive_diff
    [where eg = "of_rows (Fin 0) [[Fin 2, Fin 2, Fin 1, Fin 0]]"
       and wg = "of_rows (Fin 0) [[Fin 5, Fin 1, Fin 1, Fin 1]]"
       and ?node1.0 = "(0, 0)" and ?node2.0 = "(0, 1)" and ?node3.0 = "(0, 3)"
       and ?e1.0 = "Fin 2" and ?e2.0 = "Fin 2" and wv = "Fin 5" and m = 20
       and a = 2 and b = 2 and c = 0 and w = 5]
    get_weight_monotone_on_positive_diff
    [where eg = "of_rows (Fin 0) [[Fin 2, Fin 2, Fin 1, Fin 0]]"
       and wg = "of_rows (Fin 0) [[Fin 5, Fin 1, Fin 1, Fin 1]]"
       and ?node1.0 = "(0, 0)" and ?node2.0 = "(0, 2)" and ?node3.0 = "(0, 3)"
       and ?e1.0 = "Fin 2" and ?e2.0 = "Fin 1" and wv = "Fin 5" and m = 20
       and a = 2 and b = 1 and c = 0 and w = 5]
  by (simp add: getitem_def np_index_def of_rows_def)

section \<open>Properties of the grid graph\<close>

lemma weighted_edges_pairs:
  "weighted_edges eg wg ps = Inr es \<Longrightarrow> map (\<lambda>(u, v, w). (u, v)) es = ps"
proof (induction ps arbitrary: es)
  case Nil
  then show ?case by simp
next
  case (Cons p ps)
  obtain u v where p: "p = (u, v)" by (cases p)
  from Cons.prems obtain w es' where
    "weighted_edges eg wg ps = Inr es'" and "es = (u, v, w) # es'"
    by (auto simp: p bind_res_eq_Inr)
  with Cons.IH show ?case by (simp add: p)
qed

lemma add_weighted_edges_from_dom:
  "(add_weighted_edges_from es g e \<noteq> None) =
     (e \<in> set (map (\<lambda>(u, v, w). (u, v)) es) \<or> g e \<noteq> None)"
  unfolding add_weighted_edges_from_def
  by (induction es arbitrary: g) (auto split: prod.splits)

lemma edge_pairs_iff:
  "((u, v) \<in> set (edge_pairs ns ns)) =
     (u \<in> set ns \<and> v \<in> set ns \<and> \<bar>fst v - fst u\<bar> \<le> 1 \<and> \<bar>snd v - snd u\<bar> \<le> 1)"
proof -
  have ind: "set indices = {i. \<bar>i\<bar> \<le> 1}"
    by (auto simp: indices_def)
  have "((u, v) \<in> set (edge_pairs ns ns)) =
      (u \<in> set ns \<and> v \<in> set ns
        \<and> (\<exists>i\<in>set indices. \<exists>j\<in>set indices. v = (fst u + i, snd u + j)))"
    unfolding edge_pairs_def by (cases u) (force split: if_splits)
  also have "\<dots> =
      (u \<in> set ns \<and> v \<in> set ns \<and> \<bar>fst v - fst u\<bar> \<le> 1 \<and> \<bar>snd v - snd u\<bar> \<le> 1)"
    unfolding ind
  proof (intro conj_cong refl iffI)
    assume "\<exists>i\<in>{i. \<bar>i\<bar> \<le> 1}. \<exists>j\<in>{i. \<bar>i\<bar> \<le> 1}. v = (fst u + i, snd u + j)"
    then show "\<bar>fst v - fst u\<bar> \<le> 1 \<and> \<bar>snd v - snd u\<bar> \<le> 1" by auto
  next
    assume near: "\<bar>fst v - fst u\<bar> \<le> 1 \<and> \<bar>snd v - snd u\<bar> \<le> 1"
    have "v = (fst u + (fst v - fst u), snd u + (snd v - snd u))" by simp
    with near show "\<exists>i\<in>{i. \<bar>i\<bar> \<le> 1}. \<exists>j\<in>{i. \<bar>i\<bar> \<le> 1}. v = (fst u + i, snd u + j)"
      by blast
  qed
  finally show ?thesis .
qed



lemma example_connector:
  obtains h conn where
    "Connector_init example_heap example_basin (Fin (1/10)) = Inr (h, conn)"
    and "nodes conn = [(0, 0), (0, 1), (0, 2)]"
    and "weight_grid conn = 5" and "component_grid conn = 0" and "component conn = 1"
    and "next_addr h = 6"
  by (simp add: Connector_init_def example_heap_def example_basin_def all_cells_def
      of_rows_def getitem_def np_index_def alloc_float_def add_edges_to_graph_def
      edge_pairs_def indices_def get_weight_def pymax_def add_weighted_edges_from_def)


section \<open>Properties of the component representatives\<close>

lemma minpts_inv_value:
  "minpts_inv cg P m \<Longrightarrow> map_of m k = Some (e, n) \<Longrightarrow> n \<in> P \<and> cells cg n = k"
  unfolding minpts_inv_def by blast

lemma minpts_inv_dom: "minpts_inv cg P m \<Longrightarrow> dom (map_of m) = cells cg ` P"
  unfolding minpts_inv_def by blast

lemma minpts_inv_distinct: "minpts_inv cg P m \<Longrightarrow> distinct (map fst m)"
  unfolding minpts_inv_def by blast

lemma minpts_inv_append:
  assumes "minpts_inv cg P m" and "map_of m (cells cg rc) = None"
  shows "minpts_inv cg (insert rc P) (m @ [(cells cg rc, e, rc)])"
proof -
  from assms(2) have fresh: "cells cg rc \<notin> fst ` set m"
    by (simp add: map_of_eq_None_iff)
  have d: "distinct (map fst (m @ [(cells cg rc, e, rc)]))"
    using assms(1) fresh by (simp add: minpts_inv_def)
  have v: "n \<in> insert rc P \<and> cells cg n = k"
    if "map_of (m @ [(cells cg rc, e, rc)]) k = Some (e', n)" for k e' n
  proof (cases "map_of m k")
    case None
    with that show ?thesis by (auto simp: map_add_def split: if_splits)
  next
    case (Some a)
    with that have "map_of m k = Some (e', n)" by (simp add: map_add_def)
    from minpts_inv_value [OF assms(1) this] show ?thesis by blast
  qed
  have "dom (map_of (m @ [(cells cg rc, e, rc)])) = insert (cells cg rc) (dom (map_of m))"
    by auto
  also have "\<dots> = cells cg ` insert rc P"
    using assms(1) by (simp add: minpts_inv_def)
  finally show ?thesis
    using d v unfolding minpts_inv_def by blast
qed

lemma minpts_inv_update:
  assumes "minpts_inv cg P m" and "map_of m (cells cg rc) = Some info"
  shows "minpts_inv cg (insert rc P) (AList.update (cells cg rc) (e, rc) m)"
proof -
  have d: "distinct (map fst (AList.update (cells cg rc) (e, rc) m))"
    using assms(1) by (simp add: minpts_inv_def distinct_update)
  have v: "n \<in> insert rc P \<and> cells cg n = k"
    if "map_of (AList.update (cells cg rc) (e, rc) m) k = Some (e', n)" for k e' n
  proof (cases "k = cells cg rc")
    case True
    with that show ?thesis by (simp add: update_conv')
  next
    case False
    with that have "map_of m k = Some (e', n)" by (simp add: update_conv')
    from minpts_inv_value [OF assms(1) this] show ?thesis by blast
  qed
  have "cells cg rc \<in> dom (map_of m)"
    using assms(2) by auto
  then have "dom (map_of (AList.update (cells cg rc) (e, rc) m)) = cells cg ` insert rc P"
    using minpts_inv_dom [OF assms(1)] by (auto simp: update_conv')
  then show ?thesis
    using d v unfolding minpts_inv_def by blast
qed

lemma minpts_inv_insert:
  assumes "minpts_inv cg P m" and "map_of m (cells cg rc) = Some info"
  shows "minpts_inv cg (insert rc P) m"
proof -
  have "cells cg rc \<in> dom (map_of m)"
    using assms(2) by auto
  then have "dom (map_of m) = cells cg ` insert rc P"
    using minpts_inv_dom [OF assms(1)] by auto
  then show ?thesis
    using assms(1) unfolding minpts_inv_def by blast
qed

lemma minpts_inv_step:
  assumes "minpts_inv cg P m"
  shows "minpts_inv cg (insert rc P) (min_elevation_step cg eg rc m)"
proof (cases "map_of m (cells cg rc)")
  case None
  then have fresh: "cells cg rc \<notin> fst ` set m"
    by (simp add: map_of_eq_None_iff)
  have upd: "AList.update (cells cg rc) v (m @ [(cells cg rc, v)]) = m @ [(cells cg rc, v)]" for v
    using fresh by (induction m) auto
  show ?thesis
    using minpts_inv_append [OF assms None] None
    by (simp add: min_elevation_step_def setdefault_def Let_def upd)
next
  case (Some info)
  show ?thesis
    using minpts_inv_update [OF assms Some] minpts_inv_insert [OF assms Some] Some
    by (simp add: min_elevation_step_def setdefault_def Let_def)
qed

lemma minpts_inv_fold:
  "minpts_inv cg P m \<Longrightarrow> minpts_inv cg (P \<union> set xs) (fold (min_elevation_step cg eg) xs m)"
proof (induction xs arbitrary: P m)
  case Nil
  then show ?case by simp
next
  case (Cons x xs)
  from minpts_inv_step [OF Cons.prems]
  have "minpts_inv cg (insert x P) (min_elevation_step cg eg x m)" .
  from Cons.IH [OF this] show ?case by simp
qed

lemma minpts_inv_final:
  "minpts_inv cg (set (np_where (\<lambda>v. v > 0) cg))
     (fold (min_elevation_step cg eg) (np_where (\<lambda>v. v > 0) cg) [])"
  using minpts_inv_fold [of cg "{}" "[]" "np_where (\<lambda>v. v > 0) cg" eg]
  by (simp add: minpts_inv_def)

text \<open>
  Claim C10: \<open>get_component_min_elevation_points\<close> returns exactly one cell for every
  positive label present in the component grid, that cell carries the label, and nothing
  else is returned (every returned cell is a cell of the grid with a positive label; the
  returned cells are pairwise different).
\<close>

theorem one_representative_per_component:
  "(\<forall>l. l > 0 \<and> (\<exists>rc \<in> set (all_cells cg). cells cg rc = l) \<longrightarrow>
        (\<exists>!n. n \<in> set (get_component_min_elevation_points cg eg) \<and> cells cg n = l))
   \<and> (\<forall>n \<in> set (get_component_min_elevation_points cg eg).
        n \<in> set (all_cells cg) \<and> cells cg n > 0)
   \<and> distinct (get_component_min_elevation_points cg eg)"
proof -
  define m where "m = fold (min_elevation_step cg eg) (np_where (\<lambda>v. v > 0) cg) []"
  define P where "P = set (np_where (\<lambda>v. v > 0) cg)"
  have inv: "minpts_inv cg P m"
    unfolding m_def P_def by (rule minpts_inv_final)
  then have d: "distinct (map fst m)"
    and val: "\<And>k e n. map_of m k = Some (e, n) \<Longrightarrow> n \<in> P \<and> cells cg n = k"
    and dm: "dom (map_of m) = cells cg ` P"
    unfolding minpts_inv_def by blast+
  have P: "n \<in> P \<longleftrightarrow> n \<in> set (all_cells cg) \<and> cells cg n > 0" for n
    by (auto simp: P_def np_where_def)
  have "set (get_component_min_elevation_points cg eg) = {n. \<exists>k e. (k, e, n) \<in> set m}"
    unfolding get_component_min_elevation_points_def m_def [symmetric]
    by (force simp: image_iff)
  then have res: "set (get_component_min_elevation_points cg eg) = {n. \<exists>k e. map_of m k = Some (e, n)}"
    by (simp add: map_of_eq_Some_iff [OF d])
  have sound: "n \<in> P" if "n \<in> set (get_component_min_elevation_points cg eg)" for n
    using that val unfolding res by blast
  have ex: "\<exists>!n. n \<in> set (get_component_min_elevation_points cg eg) \<and> cells cg n = l"
    if "l > 0" and "rc \<in> set (all_cells cg)" and "cells cg rc = l" for l rc
  proof -
    have "rc \<in> P" using that by (simp add: P)
    then have "l \<in> dom (map_of m)"
      using that unfolding dm by blast
    then obtain e n where n: "map_of m l = Some (e, n)" by auto
    have "n \<in> set (get_component_min_elevation_points cg eg) \<and> cells cg n = l"
      using n val unfolding res by blast
    moreover have "n' = n"
      if "n' \<in> set (get_component_min_elevation_points cg eg)" and "cells cg n' = l" for n'
    proof -
      from that obtain k e' where k: "map_of m k = Some (e', n')" unfolding res by auto
      with val that have "k = l" by blast
      with k n show ?thesis by simp
    qed
    ultimately show ?thesis by blast
  qed
  have "distinct (get_component_min_elevation_points cg eg)"
    by (simp add: get_component_min_elevation_points_def)
  moreover have "\<forall>n \<in> set (get_component_min_elevation_points cg eg).
        n \<in> set (all_cells cg) \<and> cells cg n > 0"
    using sound P by blast
  moreover have "\<forall>l. l > 0 \<and> (\<exists>rc \<in> set (all_cells cg). cells cg rc = l) \<longrightarrow>
        (\<exists>!n. n \<in> set (get_component_min_elevation_points cg eg) \<and> cells cg n = l)"
    using ex by blast
  ultimately show ?thesis by blast
qed

text \<open>
  A grid of two rows with the labels 1 and 2: the representatives are \<open>(0, 0)\<close> for
  label 1 and \<open>(1, 1)\<close> for label 2.
\<close>

theorem one_representative_per_component_witness:
  "get_component_min_elevation_points (of_rows 0 [[1, 0, 2], [2, 2, 1]])
      (of_rows (Fin 0) [[Fin 3, Fin 3, Fin 3], [Fin 1, Fin 3, Fin 3]]) = [(0, 0), (1, 1)]
   \<and> (\<exists>!n. n \<in> set (get_component_min_elevation_points (of_rows 0 [[1, 0, 2], [2, 2, 1]])
               (of_rows (Fin 0) [[Fin 3, Fin 3, Fin 3], [Fin 1, Fin 3, Fin 3]]))
            \<and> cells (of_rows 0 [[1, 0, 2], [2, 2, 1]]) n = (2::int))"
proof -
  let ?cg = "of_rows (0::int) [[1, 0, 2], [2, 2, 1]]"
  let ?eg = "of_rows (Fin 0) [[Fin 3, Fin 3, Fin 3], [Fin 1, Fin 3, Fin 3]]"
  have present: "(0, 2) \<in> set (all_cells ?cg)"
    by code_simp
  have label: "cells ?cg (0, 2) = 2"
    by code_simp
  have val: "get_component_min_elevation_points ?cg ?eg = [(0, 0), (1, 1)]"
    by code_simp
  have "(2::int) > 0 \<and> (\<exists>rc \<in> set (all_cells ?cg). cells ?cg rc = 2)"
    using present label by (intro conjI bexI [of _ "(0, 2)"]) simp_all
  with one_representative_per_component [of ?cg ?eg]
  have "\<exists>!n. n \<in> set (get_component_min_elevation_points ?cg ?eg) \<and> cells ?cg n = 2"
    by blast
  with val show ?thesis by blast
qed

section \<open>Properties of the stitcher\<close>

lemma setitem_Inr:
  assumes "setitem a rc v = Inr a'"
  obtains r c where "np_index (nrows a) (fst rc) = Some r" and "np_index (ncols a) (snd rc) = Some c"
    and "a' = a\<lparr>cells := (cells a)((r, c) := v)\<rparr>"
  using assms by (auto simp: setitem_def split: option.splits)

lemma getitem_Inr:
  assumes "getitem a rc = Inr x"
  obtains r c where "np_index (nrows a) (fst rc) = Some r" and "np_index (ncols a) (snd rc) = Some c"
    and "x = cells a (r, c)"
  using assms by (auto simp: getitem_def split: option.splits)

lemma getitem_after_setitem:
  assumes "setitem a rc v = Inr a'"
  shows "getitem a' rc = Inr v"
  using assms by (auto simp: setitem_def getitem_def split: option.splits)

lemma getitem_setitem_other:
  assumes "setitem a rc v = Inr a'" and "getitem a' rc2 = Inr l'"
  shows "l' = v \<and> getitem a rc2 = getitem a rc \<or> getitem a rc2 = Inr l'"
  using assms by (auto simp: setitem_def getitem_def split: option.splits if_splits)

lemma getitem_same_shape:
  assumes "nrows a' = nrows a" and "ncols a' = ncols a"
    and "getitem a rc = Inr x" and "\<And>y. cells a y = x \<Longrightarrow> cells a' y = x"
  shows "getitem a' rc = Inr x"
  using assms by (auto simp: getitem_def split: option.splits)

text \<open>What one walk of \<open>relabel_path\<close> does to the two grids and to the saved path.\<close>

lemma relabel_path_effect:
  assumes "relabel_path seen new_component path cg wg saved = Inr (cg', wg', saved')"
  shows "(\<forall>x. cells cg x \<in> seen \<longrightarrow> cells cg' x = cells cg x)
    \<and> (\<forall>rc \<in> set saved'. rc \<in> set saved \<or> (\<exists>l. getitem cg rc = Inr l \<and> l \<notin> seen))
    \<and> nrows wg' = nrows wg \<and> ncols wg' = ncols wg
    \<and> (\<forall>x. cells wg' x = cells wg x \<or> cells wg' x = Fin 0)
    \<and> (\<forall>rc \<in> set saved'. rc \<in> set saved \<or> getitem wg' rc = Inr (Fin 0))"
  using assms
proof (induction path arbitrary: cg wg saved)
  case Nil
  then show ?case by simp
next
  case (Cons rc rest)
  from Cons.prems obtain cur where cur: "getitem cg rc = Inr cur"
    by (auto simp: bind_res_eq_Inr)
  show ?case
  proof (cases "cur \<in> seen")
    case True
    with Cons.prems cur show ?thesis by simp
  next
    case False
    with Cons.prems cur obtain wg1 cg1 where
      w: "setitem wg rc (Fin 0) = Inr wg1" and c: "setitem cg rc new_component = Inr cg1"
      and rest: "relabel_path seen new_component rest cg1 wg1 (saved @ [rc]) = Inr (cg', wg', saved')"
      by (auto simp: bind_res_eq_Inr)
    note IH = Cons.IH [OF rest]
    from IH have ih1: "\<And>x. cells cg1 x \<in> seen \<Longrightarrow> cells cg' x = cells cg1 x"
      by blast
    from c obtain r k where rk: "np_index (nrows cg) (fst rc) = Some r"
      "np_index (ncols cg) (snd rc) = Some k" and cg1: "cg1 = cg\<lparr>cells := (cells cg)((r, k) := new_component)\<rparr>"
      by (rule setitem_Inr)
    from cur rk have curv: "cells cg (r, k) = cur"
      by (simp add: getitem_def)
    from w obtain r' k' where wg1: "wg1 = wg\<lparr>cells := (cells wg)((r', k') := Fin 0)\<rparr>"
      by (rule setitem_Inr)
    have a: "\<forall>x. cells cg x \<in> seen \<longrightarrow> cells cg' x = cells cg x"
    proof (intro allI impI)
      fix x assume x: "cells cg x \<in> seen"
      with curv False have "x \<noteq> (r, k)" by auto
      then have "cells cg1 x = cells cg x" by (simp add: cg1)
      with ih1 [of x] x show "cells cg' x = cells cg x" by simp
    qed
    have b: "\<forall>q \<in> set saved'. q \<in> set saved \<or> (\<exists>l. getitem cg q = Inr l \<and> l \<notin> seen)"
    proof
      fix q assume "q \<in> set saved'"
      with IH have "q \<in> set (saved @ [rc]) \<or> (\<exists>l. getitem cg1 q = Inr l \<and> l \<notin> seen)"
        by blast
      then consider "q \<in> set saved" | "q = rc" | l where "getitem cg1 q = Inr l" "l \<notin> seen"
        by auto
      then show "q \<in> set saved \<or> (\<exists>l. getitem cg q = Inr l \<and> l \<notin> seen)"
      proof cases
        case 1 then show ?thesis by simp
      next
        case 2 with cur False show ?thesis by blast
      next
        case 3
        from getitem_setitem_other [OF c 3(1)] cur False 3(2) show ?thesis by auto
      qed
    qed
    have s: "nrows wg' = nrows wg \<and> ncols wg' = ncols wg"
      using IH by (simp add: wg1)
    have z: "\<forall>x. cells wg' x = cells wg x \<or> cells wg' x = Fin 0"
    proof
      fix x
      from IH have "cells wg' x = cells wg1 x \<or> cells wg' x = Fin 0" by blast
      then show "cells wg' x = cells wg x \<or> cells wg' x = Fin 0"
        by (auto simp: wg1 split: if_splits)
    qed
    have zs: "\<forall>q \<in> set saved'. q \<in> set saved \<or> getitem wg' q = Inr (Fin 0)"
    proof
      fix q assume "q \<in> set saved'"
      with IH have "q \<in> set (saved @ [rc]) \<or> getitem wg' q = Inr (Fin 0)" by blast
      moreover have "getitem wg' rc = Inr (Fin 0)"
      proof (rule getitem_same_shape [of wg' wg1])
        show "getitem wg1 rc = Inr (Fin 0)" by (rule getitem_after_setitem [OF w])
        show "nrows wg' = nrows wg1" "ncols wg' = ncols wg1" using IH by simp_all
        show "\<And>y. cells wg1 y = Fin 0 \<Longrightarrow> cells wg' y = Fin 0" using IH by metis
      qed
      ultimately show "q \<in> set saved \<or> getitem wg' q = Inr (Fin 0)" by auto
    qed
    from a b s z zs show ?thesis by blast
  qed
qed

lemma keeps_seen_refl: "keeps_seen s s"
  by (simp add: keeps_seen_def)

lemma keeps_seen_trans: "keeps_seen s s' \<Longrightarrow> keeps_seen s' s'' \<Longrightarrow> keeps_seen s s''"
  unfolding keeps_seen_def by (metis subset_iff)

lemma commit_path_keeps_seen:
  assumes "commit_path i tp s = Inr s'"
  shows "keeps_seen s s'"
proof (cases "length (snd tp) > 0")
  case False
  with assms show ?thesis by (simp add: commit_path_def keeps_seen_refl)
next
  case True
  with assms obtain new_component cg' wg' saved where
    walk: "relabel_path (components_seen s) new_component (rev (snd tp)) (cgrid s) (wgrid s) []
             = Inr (cg', wg', saved)"
    and s': "cgrid s' = cg'" "components_seen s' = insert new_component (components_seen s)"
    by (auto simp: commit_path_def bind_res_eq_Inr Let_def)
  from relabel_path_effect [OF walk] s' show ?thesis
    unfolding keeps_seen_def by blast
qed

lemma stitch_stage_keeps_seen:
  assumes "stitch_stage search g eg i cutoff s = Inr s'"
  shows "keeps_seen s s'"
proof -
  from assms obtain tps where f: "fold_res (commit_path i) tps s = Inr s'"
    by (auto simp: stitch_stage_def bind_res_eq_Inr Let_def)
  show ?thesis
    by (rule fold_res_invariant [where Q = "keeps_seen s", OF _ f keeps_seen_refl])
       (blast intro: keeps_seen_trans commit_path_keeps_seen)
qed

lemma stitch_loop_keeps_seen:
  "stitch_loop search g eg i cut_offs s = Inr s' \<Longrightarrow> keeps_seen s s'"
proof (induction cut_offs arbitrary: i s)
  case Nil
  then show ?case by (simp add: keeps_seen_refl)
next
  case (Cons cutoff rest)
  from Cons.prems obtain s1 where
    st: "stitch_stage search g eg i cutoff s = Inr s1"
    and r: "s' = s1 \<or> stitch_loop search g eg (Suc i) rest s1 = Inr s'"
    by (auto simp: bind_res_eq_Inr split: if_splits)
  from r Cons.IH have "keeps_seen s1 s'"
    by (auto simp: keeps_seen_refl)
  with stitch_stage_keeps_seen [OF st] show ?case
    by (rule keeps_seen_trans)
qed








lemma set_update_subset: "set (AList.update k v al) \<subseteq> insert (k, v) (set al)"
  by (induction al) auto

lemma commit_path_zero_paths:
  assumes "commit_path i tp s = Inr s'" and "zero_paths s"
  shows "zero_paths s'"
proof (cases "length (snd tp) > 0")
  case False
  with assms show ?thesis by (simp add: commit_path_def)
next
  case True
  with assms(1) obtain new_component cg' wg' saved where
    walk: "relabel_path (components_seen s) new_component (rev (snd tp)) (cgrid s) (wgrid s) []
             = Inr (cg', wg', saved)"
    and s': "wgrid s' = wg'"
      "paths_to_return s' = AList.update (fst tp) (saved, i + 3) (paths_to_return s)"
    by (auto simp: commit_path_def bind_res_eq_Inr Let_def)
  note eff = relabel_path_effect [OF walk]
  have old: "getitem wg' rc = Inr (Fin 0)" if "getitem (wgrid s) rc = Inr (Fin 0)" for rc
  proof (rule getitem_same_shape [OF _ _ that])
    show "nrows wg' = nrows (wgrid s)" "ncols wg' = ncols (wgrid s)" using eff by simp_all
    show "\<And>y. cells (wgrid s) y = Fin 0 \<Longrightarrow> cells wg' y = Fin 0" using eff by metis
  qed
  have new: "\<forall>rc \<in> set saved. getitem wg' rc = Inr (Fin 0)"
    using eff by simp
  show ?thesis
    unfolding zero_paths_def s'
  proof (intro ballI, clarify)
    fix target path tag rc
    assume e: "(target, path, tag) \<in> set (AList.update (fst tp) (saved, i + 3) (paths_to_return s))"
      and rc: "rc \<in> set path"
    from e set_update_subset have "(target, path, tag) = (fst tp, saved, i + 3)
        \<or> (target, path, tag) \<in> set (paths_to_return s)" by fastforce
    then show "getitem wg' rc = Inr (Fin 0)"
    proof
      assume "(target, path, tag) = (fst tp, saved, i + 3)"
      with new rc show ?thesis by simp
    next
      assume "(target, path, tag) \<in> set (paths_to_return s)"
      with assms(2) rc have "getitem (wgrid s) rc = Inr (Fin 0)"
        unfolding zero_paths_def by blast
      then show ?thesis by (rule old)
    qed
  qed
qed

lemma stitch_stage_zero_paths:
  assumes "stitch_stage search g eg i cutoff s = Inr s'" and "zero_paths s"
  shows "zero_paths s'"
proof -
  from assms obtain tps where f: "fold_res (commit_path i) tps s = Inr s'"
    by (auto simp: stitch_stage_def bind_res_eq_Inr Let_def)
  show ?thesis
    by (rule fold_res_invariant [where Q = zero_paths, OF _ f assms(2)])
       (rule commit_path_zero_paths)
qed

lemma stitch_loop_zero_paths:
  "stitch_loop search g eg i cut_offs s = Inr s' \<Longrightarrow> zero_paths s \<Longrightarrow> zero_paths s'"
proof (induction cut_offs arbitrary: i s)
  case Nil
  then show ?case by simp
next
  case (Cons cutoff rest)
  from Cons.prems(1) obtain s1 where
    st: "stitch_stage search g eg i cutoff s = Inr s1"
    and r: "s' = s1 \<or> stitch_loop search g eg (Suc i) rest s1 = Inr s'"
    by (auto simp: bind_res_eq_Inr split: if_splits)
  from stitch_stage_zero_paths [OF st Cons.prems(2)] have "zero_paths s1" .
  with r Cons.IH show ?case by blast
qed



section \<open>Properties of the skeleton tracer and the assembler\<close>

lemma set_neighbours:
  "set (neighbours x) = {y. y \<noteq> x \<and> \<bar>fst y - fst x\<bar> \<le> 1 \<and> \<bar>snd y - snd x\<bar> \<le> 1}"
proof -
  have "y \<in> set (neighbours x)"
    if "y \<noteq> x" and "\<bar>fst y - fst x\<bar> \<le> 1" and "\<bar>snd y - snd x\<bar> \<le> 1" for y
  proof -
    define d1 d2 where "d1 = fst y - fst x" and "d2 = snd y - snd x"
    from that have "d1 \<in> {-1, 0, 1}" and "d2 \<in> {-1, 0, 1}" and "\<not> (d1 = 0 \<and> d2 = 0)"
      by (auto simp: d1_def d2_def prod_eq_iff)
    then have "(d1, d2) \<in> set offsets"
      unfolding offsets_def by auto
    moreover have "y = (fst x + fst (d1, d2), snd x + snd (d1, d2))"
      by (simp add: d1_def d2_def)
    ultimately have "\<exists>ij \<in> set offsets. y = (fst x + fst ij, snd x + snd ij)"
      by blast
    then show ?thesis
      by (auto simp: neighbours_def)
  qed
  moreover have "y \<noteq> x \<and> \<bar>fst y - fst x\<bar> \<le> 1 \<and> \<bar>snd y - snd x\<bar> \<le> 1"
    if "y \<in> set (neighbours x)" for y
    using that by (cases x) (auto simp: neighbours_def offsets_def)
  ultimately show ?thesis by blast
qed

lemma distinct_neighbours: "distinct (neighbours x)"
  by (simp add: neighbours_def offsets_def)

lemma neighbours_sym: "y \<in> set (neighbours x) \<Longrightarrow> x \<in> set (neighbours y)"
  by (auto simp: set_neighbours)

lemma neighbours_in_range:
  "interior a x \<Longrightarrow> y \<in> set (neighbours x) \<Longrightarrow> y \<in> set (all_cells a)"
  by (cases x; cases y) (auto simp: set_neighbours interior_def set_all_cells)

lemma interior_in_range: "interior a x \<Longrightarrow> x \<in> set (all_cells a)"
  by (cases x) (auto simp: interior_def set_all_cells)

lemma first_open_neighbour_find:
  assumes "\<forall>ij \<in> set offs. (fst rc + fst ij, snd rc + snd ij) \<in> set (all_cells cg)"
  shows "first_open_neighbour cg seen rc offs
    = Inr (find (\<lambda>y. cells cg y > 0 \<and> y \<notin> seen) (map (\<lambda>ij. (fst rc + fst ij, snd rc + snd ij)) offs))"
  using assms by (induction offs) (simp_all add: Let_def getitem_in_range)

lemma filter_remove_one:
  assumes "distinct xs" and "y \<in> set xs" and "P y" and "y \<notin> S"
  shows "length (filter (\<lambda>z. P z \<and> z \<notin> insert y S) xs) + 1
    = length (filter (\<lambda>z. P z \<and> z \<notin> S) xs)"
  using assms
proof (induction xs)
  case Nil
  then show ?case by simp
next
  case (Cons x xs)
  show ?case
  proof (cases "x = y")
    case True
    with Cons.prems have "y \<notin> set xs" by simp
    then have "filter (\<lambda>z. P z \<and> z \<notin> insert y S) xs = filter (\<lambda>z. P z \<and> z \<notin> S) xs"
      by (intro filter_cong) auto
    with True Cons.prems show ?thesis by simp
  next
    case False
    with Cons show ?thesis by auto
  qed
qed

lemma tracer_inv_zero:
  "tracer_inv self \<Longrightarrow> \<not> mask self z \<Longrightarrow> cells (count_grid self) z = 0"
  unfolding tracer_inv_def by blast

lemma tracer_inv_count:
  "tracer_inv self \<Longrightarrow> mask self z \<Longrightarrow>
     (if open_neighbours self z = [] then cells (count_grid self) z \<le> 0
      else cells (count_grid self) z = int (length (open_neighbours self z)))"
  unfolding tracer_inv_def by blast

lemma tracer_inv_seen_sym:
  "tracer_inv self \<Longrightarrow> y \<in> connections_seen self x \<Longrightarrow> x \<in> connections_seen self y"
  unfolding tracer_inv_def by blast

lemma tracer_inv_shape:
  assumes "tracer_inv self"
  shows "nrows (count_grid self) = nrows (clean_embed self)"
    and "ncols (count_grid self) = ncols (clean_embed self)"
    and "nrows (init_count_grid self) = nrows (clean_embed self)"
    and "ncols (init_count_grid self) = ncols (clean_embed self)"
    and "\<And>x. mask self x \<Longrightarrow> interior (clean_embed self) x"
  using assms unfolding tracer_inv_def by blast+

lemma tracer_invI:
  assumes "nrows (count_grid self) = nrows (clean_embed self)"
    and "ncols (count_grid self) = ncols (clean_embed self)"
    and "nrows (init_count_grid self) = nrows (clean_embed self)"
    and "ncols (init_count_grid self) = ncols (clean_embed self)"
    and "\<And>x. mask self x \<Longrightarrow> interior (clean_embed self) x"
    and "\<And>x. \<not> mask self x \<Longrightarrow> cells (count_grid self) x = 0"
    and "\<And>x y. y \<in> connections_seen self x \<Longrightarrow> x \<in> connections_seen self y"
    and "\<And>x. mask self x \<Longrightarrow>
          (if open_neighbours self x = [] then cells (count_grid self) x \<le> 0
           else cells (count_grid self) x = int (length (open_neighbours self x)))"
  shows "tracer_inv self"
  unfolding tracer_inv_def using assms by blast

lemma tracer_inv_open:
  assumes "tracer_inv self" and "mask self x" and "open_neighbours self x \<noteq> []"
  shows "cells (count_grid self) x = int (length (open_neighbours self x))"
  using tracer_inv_count [OF assms(1,2)] assms(3) by simp

lemma tracer_inv_closed:
  assumes "tracer_inv self" and "mask self x" and "open_neighbours self x = []"
  shows "cells (count_grid self) x \<le> 0"
  using tracer_inv_count [OF assms(1,2)] assms(3) by simp

lemma tracer_inv_positive_mask:
  assumes "tracer_inv self" and "cells (count_grid self) x > 0"
  shows "mask self x"
  using tracer_inv_zero [OF assms(1), of x] assms(2) by auto

lemma tracer_inv_in_range:
  assumes "tracer_inv self" and "mask self x"
  shows "x \<in> set (all_cells (count_grid self))" and "x \<in> set (all_cells (init_count_grid self))"
    and "\<And>y. y \<in> set (neighbours x) \<Longrightarrow> y \<in> set (all_cells (count_grid self))"
    and "\<And>y. y \<in> set (neighbours x) \<Longrightarrow> y \<in> set (all_cells (init_count_grid self))"
proof -
  note s = tracer_inv_shape(1-4) [OF assms(1)]
  from tracer_inv_shape(5) [OF assms] have i: "interior (clean_embed self) x" .
  from i s have ic: "interior (count_grid self) x" and ii: "interior (init_count_grid self) x"
    by (simp_all add: interior_def)
  from ic show "x \<in> set (all_cells (count_grid self))" by (rule interior_in_range)
  from ii show "x \<in> set (all_cells (init_count_grid self))" by (rule interior_in_range)
  show "\<And>y. y \<in> set (neighbours x) \<Longrightarrow> y \<in> set (all_cells (count_grid self))"
    using ic by (rule neighbours_in_range)
  show "\<And>y. y \<in> set (neighbours x) \<Longrightarrow> y \<in> set (all_cells (init_count_grid self))"
    using ii by (rule neighbours_in_range)
qed

lemma open_neighbours_sym:
  assumes "tracer_inv self" and "mask self x" and "y \<in> set (open_neighbours self x)"
  shows "x \<in> set (open_neighbours self y)"
proof -
  from assms(3) have y: "y \<in> set (neighbours x)" "y \<notin> connections_seen self x"
    by (auto simp: open_neighbours_def)
  from tracer_inv_seen_sym [OF assms(1), of x y] y(2) have "x \<notin> connections_seen self y"
    by blast
  with y(1) assms(2) show ?thesis
    by (auto simp: open_neighbours_def dest: neighbours_sym)
qed

lemma count_is_length:
  "c = int (length xs) \<Longrightarrow> (if xs = [] then c \<le> 0 else c = int (length xs))"
  by simp

lemma mem_add_to_connections_seen:
  "b \<in> add_to_connections_seen x y seen a \<longleftrightarrow>
     b \<in> seen a \<or> (a = x \<and> b = y) \<or> (a = y \<and> b = x)"
  by (auto simp: add_to_connections_seen_def Let_def)

lemma tracer_inv_dead_end:
  assumes "tracer_inv self" and "mask self x" and "open_neighbours self x = []"
  shows "tracer_inv (self\<lparr>count_grid :=
      (count_grid self)\<lparr>cells := (cells (count_grid self))(x := cells (count_grid self) x - 1)\<rparr>\<rparr>)"
    (is "tracer_inv ?s")
proof (rule tracer_invI)
  have o: "open_neighbours ?s z = open_neighbours self z" for z
    by (simp add: open_neighbours_def mask_def)
  have m: "mask ?s z = mask self z" for z
    by (simp add: mask_def)
  note s = tracer_inv_shape [OF assms(1)]
  show "nrows (count_grid ?s) = nrows (clean_embed ?s)" "ncols (count_grid ?s) = ncols (clean_embed ?s)"
    "nrows (init_count_grid ?s) = nrows (clean_embed ?s)"
    "ncols (init_count_grid ?s) = ncols (clean_embed ?s)"
    using s(1-4) by simp_all
  show "interior (clean_embed ?s) z" if "mask ?s z" for z
    using s(5) [of z] that by (simp add: m)
  show "cells (count_grid ?s) z = 0" if "\<not> mask ?s z" for z
  proof -
    from that assms(2) have "z \<noteq> x" "\<not> mask self z" by (auto simp: m)
    with tracer_inv_zero [OF assms(1), of z] show ?thesis by simp
  qed
  show "a \<in> connections_seen ?s b" if "b \<in> connections_seen ?s a" for a b
    using tracer_inv_seen_sym [OF assms(1), of b a] that by simp
  show "if open_neighbours ?s z = [] then cells (count_grid ?s) z \<le> 0
      else cells (count_grid ?s) z = int (length (open_neighbours ?s z))" if "mask ?s z" for z
  proof (cases "z = x")
    case True
    from tracer_inv_closed [OF assms] have "cells (count_grid ?s) x \<le> 0" by simp
    with True assms(3) show ?thesis by (simp only: o if_True refl)
  next
    case False
    from that have "mask self z" by (simp add: m)
    from tracer_inv_count [OF assms(1) this] False show ?thesis
      by (simp add: o)
  qed
qed

lemma tracer_inv_consume:
  assumes inv: "tracer_inv self" and x: "mask self x" and y: "y \<in> set (open_neighbours self x)"
  shows "tracer_inv (self\<lparr>count_grid :=
      (count_grid self)\<lparr>cells := ((cells (count_grid self))
          (x := cells (count_grid self) x - 1))(y := cells (count_grid self) y - 1)\<rparr>,
      connections_seen := add_to_connections_seen x y (connections_seen self)\<rparr>)"
    (is "tracer_inv ?s")
proof -
  from y have yn: "y \<in> set (neighbours x)" and ym: "mask self y"
    and ys: "y \<notin> connections_seen self x"
    by (auto simp: open_neighbours_def)
  from yn have ne: "x \<noteq> y" by (auto simp: set_neighbours)
  from open_neighbours_sym [OF inv x y] have xo: "x \<in> set (open_neighbours self y)" .
  then have xn: "x \<in> set (neighbours y)" and xs: "x \<notin> connections_seen self y"
    by (auto simp: open_neighbours_def)
  from y have ox: "open_neighbours self x \<noteq> []" by auto
  from xo have oy: "open_neighbours self y \<noteq> []" by auto
  note cx = tracer_inv_open [OF inv x ox]
  note cy = tracer_inv_open [OF inv ym oy]
  have m: "mask ?s z = mask self z" for z
    by (simp add: mask_def)
  have seen_x: "connections_seen ?s x = insert y (connections_seen self x)"
    and seen_y: "connections_seen ?s y = insert x (connections_seen self y)"
    and seen_z: "z \<noteq> x \<Longrightarrow> z \<noteq> y \<Longrightarrow> connections_seen ?s z = connections_seen self z" for z
    using ne by (simp_all add: add_to_connections_seen_def Let_def)
  have lx: "length (open_neighbours ?s x) + 1 = length (open_neighbours self x)"
    unfolding open_neighbours_def m seen_x
    using filter_remove_one [of "neighbours x" y "mask self" "connections_seen self x"]
      distinct_neighbours yn ym ys by simp
  have ly: "length (open_neighbours ?s y) + 1 = length (open_neighbours self y)"
    unfolding open_neighbours_def m seen_y
    using filter_remove_one [of "neighbours y" x "mask self" "connections_seen self y"]
      distinct_neighbours xn x xs by simp
  have oz: "open_neighbours ?s z = open_neighbours self z" if "z \<noteq> x" "z \<noteq> y" for z
    unfolding open_neighbours_def m seen_z [OF that] ..
  have sym: "\<forall>a b. b \<in> connections_seen ?s a \<longrightarrow> a \<in> connections_seen ?s b"
  proof -
    have old: "\<And>a b. b \<in> connections_seen self a \<Longrightarrow> a \<in> connections_seen self b"
      using inv by (rule tracer_inv_seen_sym)
    have eq: "connections_seen ?s = add_to_connections_seen x y (connections_seen self)"
      by simp
    show ?thesis
      unfolding eq mem_add_to_connections_seen using old by blast
  qed
  have cnt: "if open_neighbours ?s z = [] then cells (count_grid ?s) z \<le> 0
      else cells (count_grid ?s) z = int (length (open_neighbours ?s z))"
    if z: "mask ?s z" for z
  proof -
    consider "z = x" | "z = y" | "z \<noteq> x" "z \<noteq> y" by blast
    then show ?thesis
    proof cases
      case 1
      have "cells (count_grid ?s) x = int (length (open_neighbours ?s x))"
        using cx lx ne by simp
      then show ?thesis unfolding 1 by (rule count_is_length)
    next
      case 2
      have "cells (count_grid ?s) y = int (length (open_neighbours ?s y))"
        using cy ly by simp
      then show ?thesis unfolding 2 by (rule count_is_length)
    next
      case 3
      from z have "mask self z" by (simp add: m)
      with inv have "if open_neighbours self z = [] then cells (count_grid self) z \<le> 0
        else cells (count_grid self) z = int (length (open_neighbours self z))"
        by (rule tracer_inv_count)
      with 3 show ?thesis by (simp add: oz)
    qed
  qed
  have zero: "cells (count_grid ?s) z = 0" if "\<not> mask ?s z" for z
  proof -
    from that x ym have "z \<noteq> x" "z \<noteq> y" by (auto simp: m)
    moreover from that have "\<not> mask self z" by (simp add: m)
    from tracer_inv_zero [OF inv this] have "cells (count_grid self) z = 0" .
    ultimately show ?thesis by simp
  qed
  note s = tracer_inv_shape [OF inv]
  show ?thesis
  proof (rule tracer_invI)
    show "nrows (count_grid ?s) = nrows (clean_embed ?s)"
      "ncols (count_grid ?s) = ncols (clean_embed ?s)"
      "nrows (init_count_grid ?s) = nrows (clean_embed ?s)"
      "ncols (init_count_grid ?s) = ncols (clean_embed ?s)"
      using s(1-4) by simp_all
    show "interior (clean_embed ?s) z" if "mask ?s z" for z
      using s(5) [of z] that by (simp add: m)
    show "cells (count_grid ?s) z = 0" if "\<not> mask ?s z" for z
      using that by (rule zero)
    show "a \<in> connections_seen ?s b" if "b \<in> connections_seen ?s a" for a b
      using sym that by blast
    show "if open_neighbours ?s z = [] then cells (count_grid ?s) z \<le> 0
      else cells (count_grid ?s) z = int (length (open_neighbours ?s z))" if "mask ?s z" for z
      using that by (rule cnt)
  qed
qed

lemma find_filter_None: "find P xs = None \<longleftrightarrow> filter P xs = []"
  by (induction xs) auto

lemma find_Some_filter: "find P xs = Some y \<Longrightarrow> y \<in> set (filter P xs)"
  by (induction xs) (auto split: if_splits)

text \<open>
  Under the invariant, the scan of the eight neighbours of a mask cell reads inside the
  grid, and it selects exactly among the open neighbours.
\<close>

lemma first_open_neighbour_inv:
  assumes inv: "tracer_inv self" and x: "mask self x"
    and cg1: "cg1 = (count_grid self)\<lparr>cells := (cells (count_grid self))(x := v)\<rparr>"
  shows "\<exists>found. first_open_neighbour cg1 (connections_seen self x) x offsets = Inr found
    \<and> (case found of None \<Rightarrow> open_neighbours self x = []
        | Some y \<Rightarrow> y \<in> set (open_neighbours self x))"
proof -
  have same: "all_cells cg1 = all_cells (count_grid self)"
    by (simp add: cg1 all_cells_def)
  have rng: "\<forall>ij \<in> set offsets. (fst x + fst ij, snd x + snd ij) \<in> set (all_cells cg1)"
    unfolding same using tracer_inv_in_range(3) [OF inv x]
    by (auto simp: neighbours_def)
  have pred: "(cells cg1 y > 0 \<and> y \<notin> connections_seen self x)
      = (mask self y \<and> y \<notin> connections_seen self x)" if y: "y \<in> set (neighbours x)" for y
  proof (cases "y \<in> connections_seen self x")
    case True
    then show ?thesis by simp
  next
    case False
    from y have ne: "y \<noteq> x" by (auto simp: set_neighbours)
    then have c: "cells cg1 y = cells (count_grid self) y" by (simp add: cg1)
    have "cells (count_grid self) y > 0" if m: "mask self y"
    proof -
      from y m False have "y \<in> set (open_neighbours self x)"
        by (simp add: open_neighbours_def)
      from open_neighbours_sym [OF inv x this] have "open_neighbours self y \<noteq> []" by auto
      from tracer_inv_open [OF inv m this] this show ?thesis by simp
    qed
    moreover have "mask self y" if "cells (count_grid self) y > 0"
      using inv that by (rule tracer_inv_positive_mask)
    ultimately show ?thesis using False c by auto
  qed
  have "find (\<lambda>y. cells cg1 y > 0 \<and> y \<notin> connections_seen self x) (neighbours x)
      = find (\<lambda>y. mask self y \<and> y \<notin> connections_seen self x) (neighbours x)"
    by (rule find_cong) (simp_all add: pred)
  with first_open_neighbour_find [OF rng, of "connections_seen self x"]
  have f: "first_open_neighbour cg1 (connections_seen self x) x offsets
      = Inr (find (\<lambda>y. mask self y \<and> y \<notin> connections_seen self x) (neighbours x))"
    by (simp add: neighbours_def)
  show ?thesis
  proof (cases "find (\<lambda>y. mask self y \<and> y \<notin> connections_seen self x) (neighbours x)")
    case None
    then have "open_neighbours self x = []"
      by (simp add: open_neighbours_def find_filter_None)
    with f None show ?thesis by simp
  next
    case (Some y)
    from find_Some_filter [OF this] have "y \<in> set (open_neighbours self x)"
      by (simp add: open_neighbours_def)
    with f Some show ?thesis by simp
  qed
qed

lemma investigate_row_col_inv:
  assumes "tracer_inv self" and "mask self rc"
    and "chain \<noteq> [] \<or> cells (count_grid self) rc \<ge> 1"
  shows "\<exists>self' chain'. investigate_row_col self rc chain investigate_all = Inr (self', chain')
    \<and> tracer_inv self' \<and> same_frame self self' \<and> line_strings self' = line_strings self"
  using assms
proof (induction self rc chain investigate_all rule: investigate_row_col.induct)
  case (1 self rc line_string_list investigate_all)
  note inv = "1.prems"(1) and x = "1.prems"(2)
  define c0 where "c0 = cells (count_grid self) rc"
  define cg1 where "cg1 = (count_grid self)\<lparr>cells := (cells (count_grid self))(rc := c0 - 1)\<rparr>"
  note rng = tracer_inv_in_range [OF inv x]
  have g0: "getitem (count_grid self) rc = Inr c0"
    using rng(1) by (simp add: getitem_in_range c0_def)
  have s1: "setitem (count_grid self) rc (c0 - 1) = Inr cg1"
    using rng(1) by (simp add: setitem_in_range cg1_def)
  from first_open_neighbour_inv [OF inv x cg1_def] obtain found where
    f: "first_open_neighbour cg1 (connections_seen self rc) rc offsets = Inr found"
    and fo: "case found of None \<Rightarrow> open_neighbours self rc = []
        | Some y \<Rightarrow> y \<in> set (open_neighbours self rc)"
    by blast
  show ?case
  proof (cases found)
    case None
    with fo have closed: "open_neighbours self rc = []" by simp
    from tracer_inv_closed [OF inv x closed] "1.prems"(3) have ne: "line_string_list \<noteq> []"
      by auto
    have "investigate_row_col self rc line_string_list investigate_all
        = Inr (self\<lparr>count_grid := cg1\<rparr>, butlast line_string_list)"
      by (subst investigate_row_col.simps) (simp add: g0 s1 f None ne)
    moreover have "tracer_inv (self\<lparr>count_grid := cg1\<rparr>)"
      unfolding cg1_def c0_def by (rule tracer_inv_dead_end [OF inv x closed])
    ultimately show ?thesis
      by (simp add: same_frame_def)
  next
    case (Some y)
    with fo have y: "y \<in> set (open_neighbours self rc)" by simp
    then have yn: "y \<in> set (neighbours rc)" and ym: "mask self y"
      by (auto simp: open_neighbours_def)
    from yn have ne: "y \<noteq> rc" by (auto simp: set_neighbours)
    define c1 where "c1 = cells cg1 y"
    define cg2 where "cg2 = cg1\<lparr>cells := (cells cg1)(y := c1 - 1)\<rparr>"
    define init1 where "init1 = cells (init_count_grid self) y"
    define self2 where "self2 = self\<lparr>count_grid := cg2,
        connections_seen := add_to_connections_seen rc y (connections_seen self)\<rparr>"
    have yr: "y \<in> set (all_cells cg1)"
      using rng(3) [OF yn] by (simp add: cg1_def all_cells_def)
    have g1: "getitem cg1 y = Inr c1"
      using yr by (simp add: getitem_in_range c1_def)
    have s2: "setitem cg1 y (c1 - 1) = Inr cg2"
      using yr by (simp add: setitem_in_range cg2_def)
    have gi: "getitem (init_count_grid self) y = Inr init1"
      using rng(4) [OF yn] by (simp add: getitem_in_range init1_def)
    have "cg2 = (count_grid self)\<lparr>cells := ((cells (count_grid self))
          (rc := cells (count_grid self) rc - 1))(y := cells (count_grid self) y - 1)\<rparr>"
      using ne by (simp add: cg2_def c1_def cg1_def c0_def)
    with tracer_inv_consume [OF inv x y] have inv2: "tracer_inv self2"
      by (simp add: self2_def)
    have frame2: "same_frame self self2" "line_strings self2 = line_strings self"
      by (simp_all add: same_frame_def self2_def)
    have m2: "mask self2 y"
      using ym by (simp add: mask_def self2_def)
    show ?thesis
    proof (cases "init1 = 2 \<and> \<not> investigate_all")
      case True
      then have n1: "\<not> (init1 = 1 \<and> \<not> investigate_all)" by simp
      have unfold: "investigate_row_col self rc line_string_list investigate_all
          = investigate_row_col self2 y (line_string_list @ [y]) investigate_all"
        by (subst investigate_row_col.simps)
           (simp add: g0 s1 f Some g1 s2 gi self2_def True Let_def)
      from "1.IH" [OF g0 s1 f Some g1 s2 gi self2_def n1 True inv2 m2]
      obtain self' chain' where
        "investigate_row_col self2 y (line_string_list @ [y]) investigate_all = Inr (self', chain')"
        "tracer_inv self'" "same_frame self2 self'" "line_strings self' = line_strings self2"
        by auto
      with unfold frame2 show ?thesis
        by (auto simp: same_frame_def)
    next
      case False
      have "investigate_row_col self rc line_string_list investigate_all
          = Inr (self2, line_string_list @ [y])"
        using False
        by (subst investigate_row_col.simps)
           (auto simp: g0 s1 f Some g1 s2 gi self2_def Let_def)
      with inv2 frame2 show ?thesis by simp
    qed
  qed
qed

lemma traced_refl: "tracer_inv self \<Longrightarrow> traced self self"
  by (simp add: traced_def same_frame_def)

lemma traced_trans: "traced a b \<Longrightarrow> traced b c \<Longrightarrow> traced a c"
  by (simp add: traced_def same_frame_def)

lemma traced_mask: "traced self self' \<Longrightarrow> mask self' x = mask self x"
  by (simp add: traced_def same_frame_def mask_def)

lemma traced_cells:
  assumes "tracer_inv self" and "traced self self'"
  shows "all_cells (count_grid self') = all_cells (count_grid self)"
  using tracer_inv_shape(1,2) [OF assms(1)] tracer_inv_shape(1,2) [of self'] assms(2)
  by (simp add: traced_def same_frame_def all_cells_def)

lemma tracer_inv_line_strings:
  "tracer_inv (self\<lparr>line_strings := l\<rparr>) = tracer_inv self"
  by (simp add: tracer_inv_def mask_def open_neighbours_def)

lemma traced_line_strings:
  "traced self (self'\<lparr>line_strings := l\<rparr>) = traced self self'"
  by (simp add: traced_def tracer_inv_line_strings same_frame_def)

lemma investigate_row_col_traced:
  assumes "tracer_inv self" and "mask self rc"
    and "chain \<noteq> [] \<or> cells (count_grid self) rc \<ge> 1"
  obtains self' chain' where
    "investigate_row_col self rc chain investigate_all = Inr (self', chain')"
    and "traced self self'"
  using investigate_row_col_inv [OF assms, of investigate_all]
  by (auto simp: traced_def)

lemma fold_res_total_inv:
  assumes "\<And>x s. x \<in> set xs \<Longrightarrow> Q s \<Longrightarrow> \<exists>s'. f x s = Inr s' \<and> Q s'" and "Q s"
  shows "\<exists>s'. fold_res f xs s = Inr s' \<and> Q s'"
  using assms
proof (induction xs arbitrary: s)
  case Nil
  then show ?case by simp
next
  case (Cons x xs)
  from Cons.prems(1) [of x s] Cons.prems(2) obtain s1 where s1: "f x s = Inr s1" "Q s1"
    by auto
  from Cons.IH [of s1] Cons.prems(1) s1(2) obtain s' where "fold_res f xs s1 = Inr s'" "Q s'"
    by auto
  with s1 show ?case by simp
qed

lemma linestring_starting_at_1_traced:
  assumes "tracer_inv self" and "rc \<in> set (all_cells (count_grid self))"
  shows "\<exists>self'. linestring_starting_at_1 investigate_all rc self = Inr self' \<and> traced self self'"
proof (cases "cells (count_grid self) rc = 1")
  case False
  with assms show ?thesis
    by (simp add: linestring_starting_at_1_def getitem_in_range traced_refl)
next
  case True
  with assms(1) have m: "mask self rc"
    by (simp add: tracer_inv_positive_mask)
  obtain s1 chain where "investigate_row_col self rc [rc] investigate_all = Inr (s1, chain)"
    and "traced self s1"
    by (rule investigate_row_col_traced [OF assms(1) m]) auto
  with assms(2) True show ?thesis
    by (simp add: linestring_starting_at_1_def getitem_in_range traced_line_strings)
qed

lemma linestring_remaining_traced:
  assumes "tracer_inv self" and "mask self rc"
  shows "\<exists>self'. linestring_remaining rc self = Inr self' \<and> traced self self'"
proof -
  obtain s1 chain where "investigate_row_col self rc [rc] True = Inr (s1, chain)"
    and "traced self s1"
    by (rule investigate_row_col_traced [OF assms]) auto
  then show ?thesis
    by (simp add: linestring_remaining_def traced_line_strings)
qed

lemma linestring_starting_at_2_traced:
  assumes inv: "tracer_inv self" and rc: "rc \<in> set (all_cells (count_grid self))"
  shows "\<exists>self'. linestring_starting_at_2 rc self = Inr self' \<and> traced self self'"
proof -
  have first: "\<exists>s1 chain1. (if cells (count_grid self) rc > 0
        then investigate_row_col self rc [rc] False else Inr (self, [rc])) = Inr (s1, chain1)
      \<and> traced self s1"
  proof (cases "cells (count_grid self) rc > 0")
    case True
    with inv have m: "mask self rc" by (simp add: tracer_inv_positive_mask)
    obtain s1 chain where "investigate_row_col self rc [rc] False = Inr (s1, chain)"
      and "traced self s1"
      by (rule investigate_row_col_traced [OF inv m]) auto
    with True show ?thesis by simp
  next
    case False
    with inv show ?thesis by (simp add: traced_refl)
  qed
  then obtain s1 chain1 where
    f: "(if cells (count_grid self) rc > 0
        then investigate_row_col self rc [rc] False else Inr (self, [rc])) = Inr (s1, chain1)"
    and t1: "traced self s1"
    by blast
  from t1 have inv1: "tracer_inv s1" by (simp add: traced_def)
  from traced_cells [OF inv t1] rc have rc1: "rc \<in> set (all_cells (count_grid s1))" by simp
  have second: "\<exists>s2 chain2. (if cells (count_grid s1) rc > 0
        then investigate_row_col s1 rc (rev chain1) False else Inr (s1, chain1)) = Inr (s2, chain2)
      \<and> traced s1 s2"
  proof (cases "cells (count_grid s1) rc > 0")
    case True
    with inv1 have m: "mask s1 rc" by (simp add: tracer_inv_positive_mask)
    obtain s2 chain where "investigate_row_col s1 rc (rev chain1) False = Inr (s2, chain)"
      and "traced s1 s2"
      by (rule investigate_row_col_traced [OF inv1 m]) (use True in auto)
    with True show ?thesis by simp
  next
    case False
    with inv1 show ?thesis by (simp add: traced_refl)
  qed
  then obtain s2 chain2 where
    s: "(if cells (count_grid s1) rc > 0
        then investigate_row_col s1 rc (rev chain1) False else Inr (s1, chain1)) = Inr (s2, chain2)"
    and t2: "traced s1 s2"
    by blast
  from traced_trans [OF t1 t2] have "traced self s2" .
  with f s rc rc1 show ?thesis
    by (simp add: linestring_starting_at_2_def getitem_in_range traced_line_strings)
qed

lemma sweep_traced:
  assumes inv: "tracer_inv self"
    and step: "\<And>x s. x \<in> set xs \<Longrightarrow> traced self s \<Longrightarrow> \<exists>s'. f x s = Inr s' \<and> traced s s'"
  shows "\<exists>self'. fold_res f xs self = Inr self' \<and> traced self self'"
proof (rule fold_res_total_inv [where Q = "traced self"])
  show "traced self self" using inv by (rule traced_refl)
  show "\<exists>s'. f x s = Inr s' \<and> traced self s'" if "x \<in> set xs" and "traced self s" for x s
    using step [OF that] that(2) by (blast intro: traced_trans)
qed

lemma make_all_linestrings_starting_at_1_traced:
  assumes inv: "tracer_inv self"
  shows "\<exists>self'. make_all_linestrings_starting_at_1 self investigate_all = Inr self'
    \<and> traced self self'"
  unfolding make_all_linestrings_starting_at_1_def
proof (rule sweep_traced [OF inv])
  fix x s
  assume x: "x \<in> set (np_where (\<lambda>v. v = 1) (count_grid self))" and t: "traced self s"
  from x have "x \<in> set (all_cells (count_grid self))" by (simp add: np_where_def)
  with traced_cells [OF inv t] have "x \<in> set (all_cells (count_grid s))" by simp
  moreover from t have "tracer_inv s" by (simp add: traced_def)
  ultimately show "\<exists>s'. linestring_starting_at_1 investigate_all x s = Inr s' \<and> traced s s'"
    by (rule linestring_starting_at_1_traced [rotated])
qed

lemma make_all_linestrings_starting_at_2_traced:
  assumes inv: "tracer_inv self"
  shows "\<exists>self'. make_all_linestrings_starting_at_2 self ignore_init = Inr self'
    \<and> traced self self'"
  unfolding make_all_linestrings_starting_at_2_def
proof (rule sweep_traced [OF inv])
  fix x s
  assume x: "x \<in> set (if ignore_init then np_where (\<lambda>v. v = 2) (count_grid self)
        else filter (\<lambda>rc. cells (count_grid self) rc = 2 \<and> cells (init_count_grid self) rc = 2)
               (all_cells (count_grid self)))"
    and t: "traced self s"
  from x have "x \<in> set (all_cells (count_grid self))"
    by (auto simp: np_where_def split: if_splits)
  with traced_cells [OF inv t] have "x \<in> set (all_cells (count_grid s))" by simp
  moreover from t have "tracer_inv s" by (simp add: traced_def)
  ultimately show "\<exists>s'. linestring_starting_at_2 x s = Inr s' \<and> traced s s'"
    by (rule linestring_starting_at_2_traced [rotated])
qed

lemma remaining_sweep_traced:
  assumes inv: "tracer_inv self"
  shows "\<exists>self'. fold_res linestring_remaining (np_where (\<lambda>v. v \<ge> 1) (count_grid self)) self
      = Inr self' \<and> traced self self'"
proof (rule sweep_traced [OF inv])
  fix x s
  assume x: "x \<in> set (np_where (\<lambda>v. v \<ge> 1) (count_grid self))" and t: "traced self s"
  from x have "cells (count_grid self) x > 0" by (simp add: np_where_def)
  with inv have "mask self x" by (rule tracer_inv_positive_mask)
  with traced_mask [OF t] have "mask s x" by simp
  moreover from t have "tracer_inv s" by (simp add: traced_def)
  ultimately show "\<exists>s'. linestring_remaining x s = Inr s' \<and> traced s s'"
    by (rule linestring_remaining_traced [rotated])
qed

lemma while_any_count_is_1_traced:
  "tracer_inv self \<Longrightarrow> \<exists>self'. while_any_count_is_1 self = Inr self' \<and> traced self self'"
proof (induction self rule: while_any_count_is_1.induct)
  case (1 self)
  show ?case
  proof (cases "np_any (\<lambda>v. v = 1) (count_grid self)")
    case False
    with "1.prems" show ?thesis
      by (subst while_any_count_is_1.simps) (simp add: traced_refl)
  next
    case True
    from make_all_linestrings_starting_at_1_traced [OF "1.prems", of False] obtain s1 where
      s1: "make_all_linestrings_starting_at_1 self False = Inr s1" and t1: "traced self s1"
      by blast
    from t1 have "tracer_inv s1" by (simp add: traced_def)
    from "1.IH" [OF True s1 this] obtain s' where
      "while_any_count_is_1 s1 = Inr s'" and "traced s1 s'"
      by blast
    with True s1 t1 show ?thesis
      by (subst while_any_count_is_1.simps) (auto intro: traced_trans)
  qed
qed

lemma add_remaining_traced:
  "tracer_inv self \<Longrightarrow>
     \<exists>self'. add_remaining self = Inr self' \<and> traced self self'
       \<and> \<not> np_any (\<lambda>v. v > 0) (count_grid self')"
proof (induction self rule: add_remaining.induct)
  case (1 self)
  show ?case
  proof (cases "np_any (\<lambda>v. v > 0) (count_grid self)")
    case False
    with "1.prems" show ?thesis
      by (subst add_remaining.simps) (simp add: traced_refl)
  next
    case True
    from remaining_sweep_traced [OF "1.prems"] obtain s1 where
      s1: "fold_res linestring_remaining (np_where (\<lambda>v. v \<ge> 1) (count_grid self)) self = Inr s1"
      and t1: "traced self s1"
      by blast
    from t1 have "tracer_inv s1" by (simp add: traced_def)
    from "1.IH" [OF True s1 this] obtain s' where
      "add_remaining s1 = Inr s'" and "traced s1 s'"
      and "\<not> np_any (\<lambda>v. v > 0) (count_grid s')"
      by blast
    with True s1 t1 show ?thesis
      by (subst add_remaining.simps) (auto intro: traced_trans)
  qed
qed

lemma make_all_simple_linestrings_traced:
  assumes "tracer_inv self"
  shows "\<exists>self'. make_all_simple_linestrings self = Inr self' \<and> traced self self'
    \<and> \<not> np_any (\<lambda>v. v > 0) (count_grid self')"
proof -
  from while_any_count_is_1_traced [OF assms] obtain s1 where
    s1: "while_any_count_is_1 self = Inr s1" and t1: "traced self s1" by blast
  from t1 have i1: "tracer_inv s1" by (simp add: traced_def)
  from make_all_linestrings_starting_at_2_traced [OF i1, of False] obtain s2 where
    s2: "make_all_linestrings_starting_at_2 s1 False = Inr s2" and t2: "traced s1 s2" by blast
  from t2 have i2: "tracer_inv s2" by (simp add: traced_def)
  from while_any_count_is_1_traced [OF i2] obtain s3 where
    s3: "while_any_count_is_1 s2 = Inr s3" and t3: "traced s2 s3" by blast
  from t3 have i3: "tracer_inv s3" by (simp add: traced_def)
  from add_remaining_traced [OF i3] obtain s4 where
    s4: "add_remaining s3 = Inr s4" and t4: "traced s3 s4"
    and halted: "\<not> np_any (\<lambda>v. v > 0) (count_grid s4)" by blast
  from t1 t2 t3 t4 have "traced self s4" by (blast intro: traced_trans)
  with s1 s2 s3 s4 halted show ?thesis
    by (simp add: make_all_simple_linestrings_def)
qed

lemma fold_cells_update:
  "fold (\<lambda>rc cnt. cnt\<lparr>cells := (cells cnt)(rc := f rc)\<rparr>) xs a
     = a\<lparr>cells := (\<lambda>x. if x \<in> set xs then f x else cells a x)\<rparr>"
proof (induction xs arbitrary: a)
  case Nil
  then show ?case by simp
next
  case (Cons x xs)
  have "fold (\<lambda>rc cnt. cnt\<lparr>cells := (cells cnt)(rc := f rc)\<rparr>) (x # xs) a
      = fold (\<lambda>rc cnt. cnt\<lparr>cells := (cells cnt)(rc := f rc)\<rparr>) xs
          (a\<lparr>cells := (cells a)(x := f x)\<rparr>)"
    by simp
  also have "\<dots> = (a\<lparr>cells := (cells a)(x := f x)\<rparr>)\<lparr>cells :=
      (\<lambda>y. if y \<in> set xs then f y else cells (a\<lparr>cells := (cells a)(x := f x)\<rparr>) y)\<rparr>"
    by (rule Cons.IH)
  also have "\<dots> = a\<lparr>cells := (\<lambda>y. if y \<in> set (x # xs) then f y else cells a y)\<rparr>"
    by (rule ndarray.equality) (auto simp: fun_eq_iff)
  finally show ?case .
qed

lemma upto_three: "[i .. i + 2] = [i, i + 1, i + 2]"
  by (simp add: upto_rec1)

lemma np_slice_interior:
  assumes "1 \<le> i" and "i + 1 < int n"
  shows "np_slice n (i - 1) (i + 2) = [i - 1, i, i + 1]"
proof -
  from assms have "np_slice n (i - 1) (i + 2) = [i - 1 .. (i - 1) + 2]"
    by (simp add: np_slice_def Let_def)
  then show ?thesis
    using upto_three [of "i - 1"] by simp
qed

lemma window_interior:
  assumes "interior a (r, c)"
  shows "window a (r, c) =
    [cells a (r - 1, c - 1), cells a (r - 1, c), cells a (r - 1, c + 1),
     cells a (r, c - 1), cells a (r, c), cells a (r, c + 1),
     cells a (r + 1, c - 1), cells a (r + 1, c), cells a (r + 1, c + 1)]"
  using assms by (simp add: window_def interior_def np_slice_interior)

lemma neighbours_list:
  "neighbours (r, c) =
     [(r + 1, c), (r - 1, c), (r, c + 1), (r, c - 1),
      (r + 1, c + 1), (r - 1, c + 1), (r + 1, c - 1), (r - 1, c - 1)]"
  by (simp add: neighbours_def offsets_def)

lemma length_filter_sum:
  "int (length (filter P xs)) = sum_list (map (\<lambda>y. if P y then 1 else 0) xs)"
  by (induction xs) auto

lemma sum_window_neighbours:
  fixes ind :: "cell \<Rightarrow> int"
  assumes "ind (r, c) = 1"
  shows "sum_list (map ind (neighbours (r, c)))
    = sum_list [ind (r - 1, c - 1), ind (r - 1, c), ind (r - 1, c + 1),
       ind (r, c - 1), ind (r, c), ind (r, c + 1),
       ind (r + 1, c - 1), ind (r + 1, c), ind (r + 1, c + 1)] - 1"
  unfolding neighbours_list using assms
  by (simp only: list.map sum_list.Cons sum_list.Nil)

lemma initial_tracer_state:
  assumes nonneg: "\<forall>x \<in> set (all_cells thin_grid). cells thin_grid x \<ge> 0"
  shows "tracer_inv (initial_vectorizer thin_grid)
    \<and> (\<forall>x. 0 \<le> cells (count_grid (initial_vectorizer thin_grid)) x)"
proof -
  define thin where
    "thin = thin_grid\<lparr>cells := (\<lambda>rc. if cells thin_grid rc = 2 then 0 else cells thin_grid rc)\<rparr>"
  define embed where "embed = embed_in_larger thin 1"
  define grid where "grid = embed\<lparr>cells := (\<lambda>rc. if cells embed rc > 0 then 1 else cells embed rc)\<rparr>"
  define counts where "counts = make_count_8_grid embed"
  define s where "s = initial_vectorizer thin_grid"
  have s: "s = \<lparr>clean_embed = embed, count_grid = counts, init_count_grid = counts,
          connections_seen = (\<lambda>rc. {}), line_strings = []\<rparr>"
    by (simp add: s_def initial_vectorizer_def Let_def counts_def embed_def thin_def)
  have thin_cells: "all_cells thin = all_cells thin_grid"
    by (simp add: thin_def all_cells_def)
  have thin_nonneg: "cells thin x \<ge> 0" if "x \<in> set (all_cells thin)" for x
  proof -
    from that have "x \<in> set (all_cells thin_grid)" by (simp add: thin_cells)
    with nonneg have "cells thin_grid x \<ge> 0" by blast
    then show ?thesis by (simp add: thin_def)
  qed
  have embed_nonneg: "cells embed x \<ge> 0" for x
  proof (cases x)
    case (Pair r c)
    show ?thesis
    proof (cases "1 \<le> r \<and> r < int (nrows thin + 1) \<and> 1 \<le> c \<and> c < int (ncols thin + 1)")
      case True
      then have "(r - 1, c - 1) \<in> set (all_cells thin)"
        by (auto simp: set_all_cells)
      from thin_nonneg [OF this] True show ?thesis
        by (simp add: Pair embed_def embed_in_larger_def)
    next
      case False
      then show ?thesis
        by (auto simp: Pair embed_def embed_in_larger_def)
    qed
  qed
  have m: "mask s x = (cells embed x > 0)" for x
    by (simp add: mask_def s)
  have inside: "interior embed x" if "mask s x" for x
  proof (cases x)
    case (Pair r c)
    from that have "cells embed (r, c) > 0" by (simp add: m Pair)
    then have "1 \<le> r \<and> r < int (nrows thin + 1) \<and> 1 \<le> c \<and> c < int (ncols thin + 1)"
      by (auto simp: embed_def embed_in_larger_def split: if_splits)
    then show ?thesis
      by (simp add: Pair interior_def embed_def embed_in_larger_def)
  qed
  have grid_ind: "cells grid x = (if mask s x then 1 else 0)" for x
    using embed_nonneg [of x] by (auto simp: grid_def m)
  have grid_cells: "all_cells grid = all_cells embed"
    by (simp add: grid_def all_cells_def)
  have wh: "x \<in> set (np_where (\<lambda>v. v = 1) grid) \<longleftrightarrow> mask s x" for x
  proof
    assume "x \<in> set (np_where (\<lambda>v. v = 1) grid)"
    then have "cells grid x = 1" by (simp add: np_where_def)
    then show "mask s x" by (simp add: grid_ind split: if_splits)
  next
    assume a: "mask s x"
    from interior_in_range [OF inside [OF a]] have "x \<in> set (all_cells grid)"
      by (simp add: grid_cells)
    with a show "x \<in> set (np_where (\<lambda>v. v = 1) grid)"
      by (simp add: np_where_def grid_ind)
  qed
  have "counts = fold (\<lambda>rc cnt. cnt\<lparr>cells := (cells cnt)(rc := sum_list (window grid rc) - 1)\<rparr>)
      (np_where (\<lambda>v. v = 1) grid) (grid\<lparr>cells := (\<lambda>rc. 0)\<rparr>)"
    by (simp add: counts_def make_count_8_grid_def Let_def grid_def)
  also have "\<dots> = (grid\<lparr>cells := (\<lambda>rc. 0)\<rparr>)\<lparr>cells :=
      (\<lambda>x. if x \<in> set (np_where (\<lambda>v. v = 1) grid) then sum_list (window grid x) - 1
           else cells (grid\<lparr>cells := (\<lambda>rc. 0)\<rparr>) x)\<rparr>"
    by (rule fold_cells_update)
  also have "\<dots> = grid\<lparr>cells := (\<lambda>x. if mask s x then sum_list (window grid x) - 1 else 0)\<rparr>"
    by (rule ndarray.equality) (simp_all add: wh fun_eq_iff)
  finally have counts:
    "counts = grid\<lparr>cells := (\<lambda>x. if mask s x then sum_list (window grid x) - 1 else 0)\<rparr>" .
  have shape: "nrows counts = nrows embed" "ncols counts = ncols embed"
    by (simp_all add: counts grid_def)
  have on: "open_neighbours s x = filter (mask s) (neighbours x)" for x
    by (simp add: open_neighbours_def s)
  have cnt: "cells counts x = int (length (open_neighbours s x))" if a: "mask s x" for x
  proof (cases x)
    case (Pair r c)
    from inside [OF a] have "interior grid (r, c)"
      by (simp add: Pair interior_def grid_def)
    note w = window_interior [OF this]
    define ind where "ind = (\<lambda>y. if mask s y then 1 else (0::int))"
    have g: "cells grid = ind"
      by (simp add: fun_eq_iff grid_ind ind_def)
    from a have one: "ind (r, c) = 1"
      by (simp add: ind_def Pair)
    have "int (length (open_neighbours s x)) = sum_list (map ind (neighbours x))"
      unfolding on ind_def by (rule length_filter_sum)
    also have "\<dots> = sum_list (window grid x) - 1"
      unfolding Pair w g using one by (rule sum_window_neighbours [of ind r c])
    finally have "int (length (open_neighbours s x)) = sum_list (window grid x) - 1" .
    moreover have "cells counts x = sum_list (window grid x) - 1"
      using a by (subst counts) simp
    ultimately show ?thesis by simp
  qed
  have fields: "count_grid s = counts" "init_count_grid s = counts" "clean_embed s = embed"
    "connections_seen s = (\<lambda>rc. {})"
    by (simp_all add: s)
  have zero: "cells counts x = 0" if "\<not> mask s x" for x
    using that by (subst counts) simp
  have inv: "tracer_inv s"
  proof (rule tracer_invI)
    show "nrows (count_grid s) = nrows (clean_embed s)" "ncols (count_grid s) = ncols (clean_embed s)"
      "nrows (init_count_grid s) = nrows (clean_embed s)"
      "ncols (init_count_grid s) = ncols (clean_embed s)"
      using shape by (simp_all add: fields)
    show "interior (clean_embed s) x" if "mask s x" for x
      using inside [OF that] by (simp add: fields)
    show "cells (count_grid s) x = 0" if "\<not> mask s x" for x
      using zero [OF that] by (simp add: fields)
    show "a \<in> connections_seen s b" if "b \<in> connections_seen s a" for a b
      using that by (simp add: fields)
    show "if open_neighbours s x = [] then cells (count_grid s) x \<le> 0
      else cells (count_grid s) x = int (length (open_neighbours s x))" if "mask s x" for x
    proof -
      from cnt [OF that] have "cells (count_grid s) x = int (length (open_neighbours s x))"
        by (simp add: fields)
      then show ?thesis by (rule count_is_length)
    qed
  qed
  have "0 \<le> cells (count_grid s) x" for x
    using cnt [of x] zero [of x] by (cases "mask s x") (simp_all add: fields)
  with inv show ?thesis
    by (simp add: s_def)
qed

lemma initial_tracer_inv:
  assumes "\<forall>x \<in> set (all_cells thin_grid). cells thin_grid x \<ge> 0"
  shows "tracer_inv (initial_vectorizer thin_grid)"
  using initial_tracer_state [OF assms] by simp

lemma count_total_update:
  assumes "x \<in> set (all_cells a)"
  shows "count_total (a\<lparr>cells := (cells a)(x := v)\<rparr>) = count_total a + v - cells a x"
proof -
  have same: "all_cells (a\<lparr>cells := (cells a)(x := v)\<rparr>) = all_cells a"
    by (simp add: all_cells_def)
  have "count_total (a\<lparr>cells := (cells a)(x := v)\<rparr>)
      = v + (\<Sum>y \<in> set (all_cells a) - {x}. cells a y)"
    unfolding count_total_def same using assms
    by (subst sum.remove [of _ x]) simp_all
  moreover have "count_total a = cells a x + (\<Sum>y \<in> set (all_cells a) - {x}. cells a y)"
    unfolding count_total_def using assms by (subst sum.remove [of _ x]) simp_all
  ultimately show ?thesis by simp
qed

lemma count_total_setitem:
  assumes "setitem a rc v = Inr a'" and "getitem a rc = Inr c"
  shows "count_total a' = count_total a + v - c"
proof -
  from assms(1) obtain r k where rk: "np_index (nrows a) (fst rc) = Some r"
    "np_index (ncols a) (snd rc) = Some k" and a': "a' = a\<lparr>cells := (cells a)((r, k) := v)\<rparr>"
    by (auto simp: setitem_def split: option.splits)
  from rk have "(r, k) \<in> set (all_cells a)"
    by (auto simp: set_all_cells dest: np_index_range)
  moreover from assms(2) rk have "c = cells a (r, k)"
    by (simp add: getitem_def)
  ultimately show ?thesis
    using count_total_update [of "(r, k)" a v] by (simp add: a')
qed

lemma investigate_row_col_count_total:
  "investigate_row_col self rc chain investigate_all = Inr (self', chain') \<Longrightarrow>
     count_total (count_grid self') < count_total (count_grid self)"
proof (induction self rc chain investigate_all arbitrary: self' chain'
    rule: investigate_row_col.induct)
  case (1 self rc line_string_list investigate_all)
  from "1.prems" obtain c0 cg1 found where
    c0: "getitem (count_grid self) rc = Inr c0"
    and s1: "setitem (count_grid self) rc (c0 - 1) = Inr cg1"
    and f: "first_open_neighbour cg1 (connections_seen self rc) rc offsets = Inr found"
    by (subst (asm) investigate_row_col.simps) (auto simp: bind_res_eq_Inr)
  from count_total_setitem [OF s1 c0]
  have lt1: "count_total cg1 < count_total (count_grid self)" by simp
  have "count_total (count_grid self') \<le> count_total cg1"
  proof (cases found)
    case None
    with "1.prems" c0 s1 f show ?thesis
      by (subst (asm) investigate_row_col.simps) (auto split: if_splits)
  next
    case (Some rc1)
    with "1.prems" c0 s1 f obtain c1 cg2 init1 where
      c1: "getitem cg1 rc1 = Inr c1" and s2: "setitem cg1 rc1 (c1 - 1) = Inr cg2"
      and i1: "getitem (init_count_grid self) rc1 = Inr init1"
      by (subst (asm) investigate_row_col.simps) (auto simp: bind_res_eq_Inr)
    define self2 where "self2 = self\<lparr>count_grid := cg2,
        connections_seen := add_to_connections_seen rc rc1 (connections_seen self)\<rparr>"
    from count_total_setitem [OF s2 c1]
    have le2: "count_total cg2 \<le> count_total cg1" by simp
    show ?thesis
    proof (cases "init1 = 2 \<and> \<not> investigate_all")
      case True
      with "1.prems" c0 s1 f Some c1 s2 i1
      have rec: "investigate_row_col self2 rc1 (line_string_list @ [rc1]) investigate_all
          = Inr (self', chain')"
        by (subst (asm) investigate_row_col.simps) (simp add: self2_def Let_def)
      from "1.IH" [OF c0 s1 f Some c1 s2 i1 self2_def _ _ rec] True
      have "count_total (count_grid self') < count_total (count_grid self2)"
        by simp
      with le2 show ?thesis by (simp add: self2_def)
    next
      case False
      with "1.prems" c0 s1 f Some c1 s2 i1 have "count_grid self' = cg2"
        by (subst (asm) investigate_row_col.simps) (auto simp: Let_def split: if_splits)
      with le2 show ?thesis by simp
    qed
  qed
  with lt1 show ?case by simp
qed

text \<open>
  The counts never fall below -1 while the skeleton is traced: every investigation the
  passes start finds a count of at least 0 at its cell.
\<close>

lemma setitem_cells:
  assumes "setitem a rc v = Inr a'"
  obtains x where "x \<in> set (all_cells a)" and "a' = a\<lparr>cells := (cells a)(x := v)\<rparr>"
    and "getitem a rc = Inr (cells a x)"
proof -
  from assms obtain r k where rk: "np_index (nrows a) (fst rc) = Some r"
    "np_index (ncols a) (snd rc) = Some k" and a': "a' = a\<lparr>cells := (cells a)((r, k) := v)\<rparr>"
    by (auto simp: setitem_def split: option.splits)
  from rk have "(r, k) \<in> set (all_cells a)"
    by (auto simp: set_all_cells dest: np_index_range)
  moreover from rk have "getitem a rc = Inr (cells a (r, k))"
    by (simp add: getitem_def)
  ultimately show ?thesis using a' that by blast
qed

lemma all_cells_update [simp]: "all_cells (a\<lparr>cells := f\<rparr>) = all_cells a"
  by (simp add: all_cells_def)

lemma counts_floor_setitem:
  assumes "setitem a rc v = Inr a'" and "counts_floor a" and "- 1 \<le> v"
  shows "counts_floor a'"
proof -
  from assms(1) obtain x where "a' = a\<lparr>cells := (cells a)(x := v)\<rparr>"
    by (rule setitem_cells)
  with assms(2,3) show ?thesis
    by (simp add: counts_floor_def)
qed

lemma count_total_floor:
  assumes "counts_floor a"
  shows "- int (nrows a * ncols a) \<le> count_total a"
proof -
  have len: "length (all_cells a) = nrows a * ncols a"
    by (simp add: all_cells_def length_concat comp_def sum_list_triv)
  have "of_nat (card (set (all_cells a))) * (- 1) \<le> (\<Sum>x \<in> set (all_cells a). cells a x)"
    using assms by (intro sum_bounded_below) (simp add: counts_floor_def)
  then have "- int (card (set (all_cells a))) \<le> count_total a"
    by (simp add: count_total_def)
  moreover have "int (card (set (all_cells a))) \<le> int (nrows a * ncols a)"
    using card_length [of "all_cells a"] by (simp only: len of_nat_le_iff)
  ultimately show ?thesis
    by linarith
qed

lemma investigate_row_col_floor:
  "investigate_row_col self rc chain investigate_all = Inr (self', chain') \<Longrightarrow>
   counts_floor (count_grid self) \<Longrightarrow> getitem (count_grid self) rc = Inr c \<Longrightarrow> 0 \<le> c \<Longrightarrow>
     counts_floor (count_grid self')"
proof (induction self rc chain investigate_all arbitrary: self' chain' c
    rule: investigate_row_col.induct)
  case (1 self rc line_string_list investigate_all)
  from "1.prems"(1) obtain c0 cg1 found where
    c0: "getitem (count_grid self) rc = Inr c0"
    and s1: "setitem (count_grid self) rc (c0 - 1) = Inr cg1"
    and f: "first_open_neighbour cg1 (connections_seen self rc) rc offsets = Inr found"
    by (subst (asm) investigate_row_col.simps) (auto simp: bind_res_eq_Inr)
  from c0 "1.prems"(3,4) have "0 \<le> c0" by simp
  with counts_floor_setitem [OF s1 "1.prems"(2)] have fl1: "counts_floor cg1" by simp
  show ?case
  proof (cases found)
    case None
    with "1.prems"(1) c0 s1 f have "count_grid self' = cg1"
      by (subst (asm) investigate_row_col.simps) (auto split: if_splits)
    with fl1 show ?thesis by simp
  next
    case (Some rc1)
    with "1.prems"(1) c0 s1 f obtain c1 cg2 init1 where
      c1: "getitem cg1 rc1 = Inr c1" and s2: "setitem cg1 rc1 (c1 - 1) = Inr cg2"
      and i1: "getitem (init_count_grid self) rc1 = Inr init1"
      by (subst (asm) investigate_row_col.simps) (auto simp: bind_res_eq_Inr)
    define self2 where "self2 = self\<lparr>count_grid := cg2,
        connections_seen := add_to_connections_seen rc rc1 (connections_seen self)\<rparr>"
    from f c1 Some have pos: "c1 > 0"
      using first_open_neighbour_Some [of cg1 "connections_seen self rc" rc offsets rc1] by auto
    with counts_floor_setitem [OF s2 fl1] have fl2: "counts_floor cg2" by simp
    from s2 have g2: "getitem cg2 rc1 = Inr (c1 - 1)"
      by (rule getitem_after_setitem)
    show ?thesis
    proof (cases "init1 = 2 \<and> \<not> investigate_all")
      case True
      with "1.prems"(1) c0 s1 f Some c1 s2 i1
      have rec: "investigate_row_col self2 rc1 (line_string_list @ [rc1]) investigate_all
          = Inr (self', chain')"
        by (subst (asm) investigate_row_col.simps) (simp add: self2_def Let_def)
      from pos have "0 \<le> c1 - 1" by simp
      from "1.IH" [OF c0 s1 f Some c1 s2 i1 self2_def _ _ rec _ _ this] True fl2 g2
      show ?thesis by (simp add: self2_def)
    next
      case False
      with "1.prems"(1) c0 s1 f Some c1 s2 i1 have "count_grid self' = cg2"
        by (subst (asm) investigate_row_col.simps) (auto simp: Let_def split: if_splits)
      with fl2 show ?thesis by simp
    qed
  qed
qed

lemma bind_resE:
  assumes "bind_res m f = Inr y"
  obtains x where "m = Inr x" and "f x = Inr y"
  using assms by (auto simp: bind_res_eq_Inr)

lemma distinct_all_cells: "distinct (all_cells a)"
proof (cases "ncols a = 0")
  case True
  have e: "concat (map (\<lambda>r. []) xs) = ([] :: cell list)" for xs :: "nat list"
    by (induction xs) simp_all
  from True show ?thesis by (simp add: all_cells_def e)
next
  case False
  then have "0 \<in> set [0..<ncols a]" by simp
  then have "distinct (map (\<lambda>r. map (\<lambda>c. (int r, int c)) [0..<ncols a]) [0..<nrows a])"
    by (auto simp: distinct_map inj_on_def dest!: map_eq_imp_length_eq)
  then show ?thesis
    unfolding all_cells_def
    by (rule distinct_concat) (auto simp: distinct_map inj_on_def)
qed

lemma investigate_row_col_shape:
  "investigate_row_col self rc chain investigate_all = Inr (self', chain') \<Longrightarrow>
     all_cells (count_grid self') = all_cells (count_grid self)"
proof (induction self rc chain investigate_all arbitrary: self' chain'
    rule: investigate_row_col.induct)
  case (1 self rc line_string_list investigate_all)
  from "1.prems"(1) obtain c0 cg1 found where
    c0: "getitem (count_grid self) rc = Inr c0"
    and s1: "setitem (count_grid self) rc (c0 - 1) = Inr cg1"
    and f: "first_open_neighbour cg1 (connections_seen self rc) rc offsets = Inr found"
    by (subst (asm) investigate_row_col.simps) (auto simp: bind_res_eq_Inr)
  from s1 have sh1: "all_cells cg1 = all_cells (count_grid self)"
    by (rule setitem_cells) simp
  show ?case
  proof (cases found)
    case None
    with "1.prems"(1) c0 s1 f have "count_grid self' = cg1"
      by (subst (asm) investigate_row_col.simps) (auto split: if_splits)
    with sh1 show ?thesis by simp
  next
    case (Some rc1)
    with "1.prems"(1) c0 s1 f obtain c1 cg2 init1 where
      c1: "getitem cg1 rc1 = Inr c1" and s2: "setitem cg1 rc1 (c1 - 1) = Inr cg2"
      and i1: "getitem (init_count_grid self) rc1 = Inr init1"
      by (subst (asm) investigate_row_col.simps) (auto simp: bind_res_eq_Inr)
    define self2 where "self2 = self\<lparr>count_grid := cg2,
        connections_seen := add_to_connections_seen rc rc1 (connections_seen self)\<rparr>"
    from s2 have sh2: "all_cells cg2 = all_cells cg1"
      by (rule setitem_cells) simp
    show ?thesis
    proof (cases "init1 = 2 \<and> \<not> investigate_all")
      case True
      with "1.prems"(1) c0 s1 f Some c1 s2 i1
      have rec: "investigate_row_col self2 rc1 (line_string_list @ [rc1]) investigate_all
          = Inr (self', chain')"
        by (subst (asm) investigate_row_col.simps) (simp add: self2_def Let_def)
      from "1.IH" [OF c0 s1 f Some c1 s2 i1 self2_def _ _ rec] True sh1 sh2
      show ?thesis by (simp add: self2_def)
    next
      case False
      with "1.prems"(1) c0 s1 f Some c1 s2 i1 have "count_grid self' = cg2"
        by (subst (asm) investigate_row_col.simps) (auto simp: Let_def split: if_splits)
      with sh1 sh2 show ?thesis by simp
    qed
  qed
qed

lemma investigate_all_others:
  assumes i: "investigate_row_col self rc chain True = Inr (self', chain')"
    and rc: "rc \<in> set (all_cells (count_grid self))"
    and y: "y \<noteq> rc" "0 \<le> cells (count_grid self) y"
  shows "0 \<le> cells (count_grid self') y"
proof -
  from i obtain c0 cg1 found where
    c0: "getitem (count_grid self) rc = Inr c0"
    and s1: "setitem (count_grid self) rc (c0 - 1) = Inr cg1"
    and f: "first_open_neighbour cg1 (connections_seen self rc) rc offsets = Inr found"
    by (subst (asm) investigate_row_col.simps) (auto simp: bind_res_eq_Inr)
  from s1 rc have cg1: "cg1 = (count_grid self)\<lparr>cells := (cells (count_grid self))(rc := c0 - 1)\<rparr>"
    by (simp add: setitem_in_range)
  with y have y1: "0 \<le> cells cg1 y" by simp
  show ?thesis
  proof (cases found)
    case None
    with i c0 s1 f have "count_grid self' = cg1"
      by (subst (asm) investigate_row_col.simps) (auto split: if_splits)
    with y1 show ?thesis by simp
  next
    case (Some rc1)
    with i c0 s1 f obtain c1 cg2 init1 where
      c1: "getitem cg1 rc1 = Inr c1" and s2: "setitem cg1 rc1 (c1 - 1) = Inr cg2"
      and i1: "getitem (init_count_grid self) rc1 = Inr init1"
      by (subst (asm) investigate_row_col.simps) (auto simp: bind_res_eq_Inr)
    from f c1 Some have pos: "c1 > 0"
      using first_open_neighbour_Some [of cg1 "connections_seen self rc" rc offsets rc1] by auto
    from s2 obtain x where "cg2 = cg1\<lparr>cells := (cells cg1)(x := c1 - 1)\<rparr>"
      by (rule setitem_cells)
    with y1 pos have y2: "0 \<le> cells cg2 y" by simp
    from i c0 s1 f Some c1 s2 i1 have "count_grid self' = cg2"
      by (subst (asm) investigate_row_col.simps) (auto simp: Let_def split: if_splits)
    with y2 show ?thesis by simp
  qed
qed

lemma linestring_starting_at_1_floor:
  assumes "linestring_starting_at_1 investigate_all rc self = Inr self'"
    and "counts_floor (count_grid self)"
  shows "counts_floor (count_grid self')"
proof -
  from assms(1) obtain c where c: "getitem (count_grid self) rc = Inr c"
    by (auto simp: linestring_starting_at_1_def bind_res_eq_Inr)
  show ?thesis
  proof (cases "c = 1")
    case False
    with assms c show ?thesis by (simp add: linestring_starting_at_1_def)
  next
    case True
    with assms(1) c obtain s1 chain where
      i: "investigate_row_col self rc [rc] investigate_all = Inr (s1, chain)"
      and s': "count_grid self' = count_grid s1"
      by (auto simp: linestring_starting_at_1_def bind_res_eq_Inr)
    from investigate_row_col_floor [OF i assms(2) c] True show ?thesis
      by (simp add: s')
  qed
qed

lemma make_all_linestrings_starting_at_1_floor:
  assumes "make_all_linestrings_starting_at_1 self investigate_all = Inr self'"
    and "counts_floor (count_grid self)"
  shows "counts_floor (count_grid self')"
  using assms unfolding make_all_linestrings_starting_at_1_def
  by (rule fold_res_invariant [where Q = "\<lambda>s. counts_floor (count_grid s)", rotated])
     (rule linestring_starting_at_1_floor)

lemma guarded_investigate_floor:
  assumes "(if c > 0 then investigate_row_col self rc chain False else Inr (self, chain0))
      = Inr (self', chain')"
    and "getitem (count_grid self) rc = Inr c" and "counts_floor (count_grid self)"
  shows "counts_floor (count_grid self')"
proof (cases "c > 0")
  case True
  with assms(1) have "investigate_row_col self rc chain False = Inr (self', chain')" by simp
  from investigate_row_col_floor [OF this assms(3,2)] True show ?thesis by simp
next
  case False
  with assms show ?thesis by simp
qed

lemma linestring_starting_at_2_floor:
  assumes "linestring_starting_at_2 rc self = Inr self'"
    and "counts_floor (count_grid self)"
  shows "counts_floor (count_grid self')"
proof -
  from assms(1) [unfolded linestring_starting_at_2_def] obtain c where
    c: "getitem (count_grid self) rc = Inr c"
    and r0: "bind_res (if c > 0 then investigate_row_col self rc [rc] False
               else Inr (self, [rc])) (\<lambda>(self1, chain1).
     bind_res (getitem (count_grid self1) rc) (\<lambda>c'.
     bind_res (if c' > 0 then investigate_row_col self1 rc (rev chain1) False
               else Inr (self1, chain1)) (\<lambda>(self2, chain2).
       Inr (if length chain2 > 1
            then self2\<lparr>line_strings := line_strings self2 @ [chain2]\<rparr> else self2))))
       = Inr self'"
    by (rule bind_resE)
  from r0 obtain p where
    f: "(if c > 0 then investigate_row_col self rc [rc] False else Inr (self, [rc])) = Inr p"
    and r1: "(case p of (self1, chain1) \<Rightarrow>
        bind_res (getitem (count_grid self1) rc) (\<lambda>c'.
        bind_res (if c' > 0 then investigate_row_col self1 rc (rev chain1) False
                  else Inr (self1, chain1)) (\<lambda>(self2, chain2).
          Inr (if length chain2 > 1
               then self2\<lparr>line_strings := line_strings self2 @ [chain2]\<rparr> else self2))))
      = Inr self'"
    by (rule bind_resE)
  obtain s1 chain1 where p: "p = (s1, chain1)" by (cases p)
  from r1 [unfolded p prod.case] obtain c' where
    c': "getitem (count_grid s1) rc = Inr c'"
    and r2': "bind_res (if c' > 0 then investigate_row_col s1 rc (rev chain1) False
                  else Inr (s1, chain1)) (\<lambda>(self2, chain2).
          Inr (if length chain2 > 1
               then self2\<lparr>line_strings := line_strings self2 @ [chain2]\<rparr> else self2))
      = Inr self'"
    by (rule bind_resE)
  from r2' obtain q where
    s: "(if c' > 0 then investigate_row_col s1 rc (rev chain1) False else Inr (s1, chain1))
        = Inr q"
    and r2: "(case q of (self2, chain2) \<Rightarrow>
          Inr (if length chain2 > 1
               then self2\<lparr>line_strings := line_strings self2 @ [chain2]\<rparr> else self2))
      = (Inr self' :: error + vectorizer)"
    by (rule bind_resE)
  obtain s2 chain2 where q: "q = (s2, chain2)" by (cases q)
  from r2 have s': "count_grid self' = count_grid s2"
    by (auto simp: q split: if_splits)
  from guarded_investigate_floor [OF f [unfolded p] c assms(2)]
  have "counts_floor (count_grid s1)" .
  from guarded_investigate_floor [OF s [unfolded q] c' this] show ?thesis by (simp add: s')
qed

lemma make_all_linestrings_starting_at_2_floor:
  assumes "make_all_linestrings_starting_at_2 self ignore_init = Inr self'"
    and "counts_floor (count_grid self)"
  shows "counts_floor (count_grid self')"
  using assms unfolding make_all_linestrings_starting_at_2_def
  by (rule fold_res_invariant [where Q = "\<lambda>s. counts_floor (count_grid s)", rotated])
     (rule linestring_starting_at_2_floor)

lemma while_any_count_is_1_floor:
  "while_any_count_is_1 self = Inr self' \<Longrightarrow> counts_floor (count_grid self) \<Longrightarrow>
     counts_floor (count_grid self')"
proof (induction self rule: while_any_count_is_1.induct)
  case (1 self)
  show ?case
  proof (cases "np_any (\<lambda>v. v = 1) (count_grid self)")
    case False
    with "1.prems" show ?thesis
      by (subst (asm) while_any_count_is_1.simps) simp
  next
    case True
    with "1.prems"(1) obtain s1 where
      s1: "make_all_linestrings_starting_at_1 self False = Inr s1"
      and r: "while_any_count_is_1 s1 = Inr self'"
      by (subst (asm) while_any_count_is_1.simps) (auto simp: bind_res_eq_Inr)
    from make_all_linestrings_starting_at_1_floor [OF s1 "1.prems"(2)]
    have "counts_floor (count_grid s1)" .
    from "1.IH" [OF True s1 r this] show ?thesis .
  qed
qed

lemma remaining_sweep_floor:
  "fold_res linestring_remaining xs self = Inr self' \<Longrightarrow> distinct xs \<Longrightarrow>
   set xs \<subseteq> set (all_cells (count_grid self)) \<Longrightarrow> counts_floor (count_grid self) \<Longrightarrow>
   (\<forall>x \<in> set xs. 0 \<le> cells (count_grid self) x) \<Longrightarrow> counts_floor (count_grid self')"
proof (induction xs arbitrary: self)
  case Nil
  then show ?case by simp
next
  case (Cons x xs)
  from Cons.prems(1) obtain s1 where
    first: "linestring_remaining x self = Inr s1"
    and rest: "fold_res linestring_remaining xs s1 = Inr self'"
    by (auto simp: bind_res_eq_Inr)
  from first obtain t chain where
    i: "investigate_row_col self x [x] True = Inr (t, chain)"
    and s1: "count_grid s1 = count_grid t"
    by (auto simp: linestring_remaining_def bind_res_eq_Inr)
  from Cons.prems(3) have x: "x \<in> set (all_cells (count_grid self))" by simp
  then have gx: "getitem (count_grid self) x = Inr (cells (count_grid self) x)"
    by (rule getitem_in_range)
  from Cons.prems(5) have "0 \<le> cells (count_grid self) x" by simp
  from investigate_row_col_floor [OF i Cons.prems(4) gx this]
  have fl: "counts_floor (count_grid s1)" by (simp add: s1)
  from investigate_row_col_shape [OF i]
  have sh: "all_cells (count_grid s1) = all_cells (count_grid self)" by (simp add: s1)
  have "\<forall>y \<in> set xs. 0 \<le> cells (count_grid s1) y"
  proof
    fix y assume y: "y \<in> set xs"
    with Cons.prems(2) have "y \<noteq> x" by auto
    moreover from y Cons.prems(5) have "0 \<le> cells (count_grid self) y" by simp
    ultimately show "0 \<le> cells (count_grid s1) y"
      using investigate_all_others [OF i x] by (simp add: s1)
  qed
  with Cons.IH [OF rest] Cons.prems(2,3) fl sh show ?case by simp
qed

lemma add_remaining_floor:
  "add_remaining self = Inr self' \<Longrightarrow> counts_floor (count_grid self) \<Longrightarrow>
     counts_floor (count_grid self')"
proof (induction self rule: add_remaining.induct)
  case (1 self)
  show ?case
  proof (cases "np_any (\<lambda>v. v > 0) (count_grid self)")
    case False
    with "1.prems" show ?thesis
      by (subst (asm) add_remaining.simps) simp
  next
    case True
    with "1.prems"(1) obtain s1 where
      s1: "fold_res linestring_remaining (np_where (\<lambda>v. v \<ge> 1) (count_grid self)) self = Inr s1"
      and r: "add_remaining s1 = Inr self'"
      by (subst (asm) add_remaining.simps) (auto simp: bind_res_eq_Inr)
    have "counts_floor (count_grid s1)"
      by (rule remaining_sweep_floor [OF s1 _ _ "1.prems"(2)])
         (auto simp: np_where_def distinct_all_cells)
    from "1.IH" [OF True s1 r this] show ?thesis .
  qed
qed

lemma make_all_simple_linestrings_floor:
  assumes "make_all_simple_linestrings self = Inr self'" and "counts_floor (count_grid self)"
  shows "counts_floor (count_grid self')"
proof -
  from assms(1) obtain s1 s2 s3 where
    s1: "while_any_count_is_1 self = Inr s1"
    and s2: "make_all_linestrings_starting_at_2 s1 False = Inr s2"
    and s3: "while_any_count_is_1 s2 = Inr s3"
    and s4: "add_remaining s3 = Inr self'"
    by (auto simp: make_all_simple_linestrings_def bind_res_eq_Inr)
  from while_any_count_is_1_floor [OF s1 assms(2)] have "counts_floor (count_grid s1)" .
  from make_all_linestrings_starting_at_2_floor [OF s2 this] have "counts_floor (count_grid s2)" .
  from while_any_count_is_1_floor [OF s3 this] have "counts_floor (count_grid s3)" .
  from add_remaining_floor [OF s4 this] show ?thesis .
qed

text \<open>
  Claim C9: skeleton tracing terminates for every input mask. All the loops of the tracer
  are total functions here, their termination proved from the sum of the positive
  counts (\<open>positive_total\<close>), a natural number. The theorem adds what the claim says
  about the steps and the end. The sum of all the counts (\<open>count_total\<close>) is strictly
  lowered by every investigation that returns (and the sum of the positive counts is not
  raised). That sum is bounded below: in a grid that satisfies \<open>counts_floor\<close> it is at
  least minus the number of cells; an investigation entered at a cell whose count is not
  negative keeps \<open>counts_floor\<close>, and so does each pass. For every thin grid with
  non-negative entries the whole tracing returns a final state, without an exception,
  in which no positive count remains and \<open>counts_floor\<close> holds. Every write to the
  count grid is a decrement, so the sum is never below its final value.
\<close>

theorem skeleton_tracing_terminates:
  "(investigate_row_col self rc chain investigate_all = Inr (self', chain') \<longrightarrow>
      count_total (count_grid self') < count_total (count_grid self)
      \<and> positive_total (count_grid self') \<le> positive_total (count_grid self)
      \<and> (counts_floor (count_grid self) \<and> (\<exists>c. getitem (count_grid self) rc = Inr c \<and> 0 \<le> c)
           \<longrightarrow> counts_floor (count_grid self')
             \<and> - int (nrows (count_grid self') * ncols (count_grid self'))
                 \<le> count_total (count_grid self')))
   \<and> (counts_floor (count_grid self) \<longrightarrow>
        (make_all_linestrings_starting_at_1 self b = Inr self1 \<longrightarrow> counts_floor (count_grid self1))
        \<and> (make_all_linestrings_starting_at_2 self b = Inr self2 \<longrightarrow> counts_floor (count_grid self2))
        \<and> (add_remaining self = Inr self3 \<longrightarrow> counts_floor (count_grid self3)))
   \<and> ((\<forall>x \<in> set (all_cells thin_grid). cells thin_grid x \<ge> 0) \<longrightarrow>
      (\<exists>final. trace_skeleton thin_grid = Inr final
         \<and> \<not> np_any (\<lambda>v. v > 0) (count_grid final)
         \<and> counts_floor (count_grid final)
         \<and> - int (nrows (count_grid final) * ncols (count_grid final))
             \<le> count_total (count_grid final)))"
proof (intro conjI impI)
  assume i: "investigate_row_col self rc chain investigate_all = Inr (self', chain')"
  from investigate_row_col_count_total [OF i]
  show "count_total (count_grid self') < count_total (count_grid self)" .
  from investigate_row_col_total [OF i]
  show "positive_total (count_grid self') \<le> positive_total (count_grid self)" by simp
  assume "counts_floor (count_grid self) \<and> (\<exists>c. getitem (count_grid self) rc = Inr c \<and> 0 \<le> c)"
  then obtain c where "counts_floor (count_grid self)"
    and "getitem (count_grid self) rc = Inr c" and "0 \<le> c"
    by blast
  with i show fl: "counts_floor (count_grid self')"
    by (rule investigate_row_col_floor)
  from count_total_floor [OF fl]
  show "- int (nrows (count_grid self') * ncols (count_grid self')) \<le> count_total (count_grid self')" .
next
  assume "counts_floor (count_grid self)" and "make_all_linestrings_starting_at_1 self b = Inr self1"
  then show "counts_floor (count_grid self1)"
    by (rule make_all_linestrings_starting_at_1_floor [rotated])
next
  assume "counts_floor (count_grid self)" and "make_all_linestrings_starting_at_2 self b = Inr self2"
  then show "counts_floor (count_grid self2)"
    by (rule make_all_linestrings_starting_at_2_floor [rotated])
next
  assume "counts_floor (count_grid self)" and "add_remaining self = Inr self3"
  then show "counts_floor (count_grid self3)"
    by (rule add_remaining_floor [rotated])
next
  assume nonneg: "\<forall>x \<in> set (all_cells thin_grid). cells thin_grid x \<ge> 0"
  from initial_tracer_state [OF nonneg]
  have inv: "tracer_inv (initial_vectorizer thin_grid)"
    and pos: "\<And>x. 0 \<le> cells (count_grid (initial_vectorizer thin_grid)) x"
    by blast+
  have fl0: "counts_floor (count_grid (initial_vectorizer thin_grid))"
    unfolding counts_floor_def
  proof
    fix x
    from pos [of x] show "- 1 \<le> cells (count_grid (initial_vectorizer thin_grid)) x"
      by simp
  qed
  from make_all_simple_linestrings_traced [OF inv] obtain final where
    f: "make_all_simple_linestrings (initial_vectorizer thin_grid) = Inr final"
    and halted: "\<not> np_any (\<lambda>v. v > 0) (count_grid final)"
    by blast
  from make_all_simple_linestrings_floor [OF f fl0] have fl: "counts_floor (count_grid final)" .
  from f halted fl count_total_floor [OF fl]
  show "\<exists>final. trace_skeleton thin_grid = Inr final
         \<and> \<not> np_any (\<lambda>v. v > 0) (count_grid final)
         \<and> counts_floor (count_grid final)
         \<and> - int (nrows (count_grid final) * ncols (count_grid final))
             \<le> count_total (count_grid final)"
    unfolding trace_skeleton_def by blast
qed

text \<open>
  On the T-shaped mask: the investigation that starts at the endpoint \<open>(1, 3)\<close>, whose
  count is 1, returns, lowers the sum of the counts and keeps every count at -1 or
  above; the first pass over the endpoints and the two other passes keep that bound;
  and the tracing of the whole mask returns with no positive count left and no count
  below -1.
\<close>

theorem skeleton_tracing_terminates_witness:
  "(\<exists>self' chain'. investigate_row_col (initial_vectorizer junction_mask) (1, 3) [(1, 3)] False
        = Inr (self', chain')
      \<and> count_total (count_grid self') < count_total (count_grid (initial_vectorizer junction_mask))
      \<and> counts_floor (count_grid self')
      \<and> - int (nrows (count_grid self') * ncols (count_grid self')) \<le> count_total (count_grid self'))
   \<and> (\<exists>self1 self2 self3.
        make_all_linestrings_starting_at_1 (initial_vectorizer junction_mask) False = Inr self1
        \<and> counts_floor (count_grid self1)
        \<and> make_all_linestrings_starting_at_2 (initial_vectorizer junction_mask) False = Inr self2
        \<and> counts_floor (count_grid self2)
        \<and> add_remaining (initial_vectorizer junction_mask) = Inr self3
        \<and> counts_floor (count_grid self3))
   \<and> (\<exists>final. trace_skeleton junction_mask = Inr final
         \<and> \<not> np_any (\<lambda>v. v > 0) (count_grid final)
         \<and> counts_floor (count_grid final)
         \<and> - int (nrows (count_grid final) * ncols (count_grid final))
             \<le> count_total (count_grid final))"
proof (intro conjI)
  let ?s = "initial_vectorizer junction_mask"
  let ?i = "investigate_row_col ?s (1, 3) [(1, 3)] False"
  have fl0: "counts_floor (count_grid ?s)"
    by code_simp
  have c: "getitem (count_grid ?s) (1, 3) = Inr 1"
    by code_simp
  have "(case ?i of Inl e \<Rightarrow> None | Inr (s, chain) \<Rightarrow> Some chain) = Some [(1, 3), (2, 3)]"
    by code_simp
  then obtain s c' where i: "?i = Inr (s, c')"
    by (auto split: sum.splits)
  with skeleton_tracing_terminates [of ?s "(1, 3)" "[(1, 3)]" False s c'] fl0 c
  show "\<exists>self' chain'. ?i = Inr (self', chain')
      \<and> count_total (count_grid self') < count_total (count_grid ?s)
      \<and> counts_floor (count_grid self')
      \<and> - int (nrows (count_grid self') * ncols (count_grid self')) \<le> count_total (count_grid self')"
    by simp
  have "(case make_all_linestrings_starting_at_1 ?s False of
           Inl e \<Rightarrow> False | Inr s1 \<Rightarrow> True)"
    by code_simp
  then obtain s1 where p1: "make_all_linestrings_starting_at_1 ?s False = Inr s1"
    by (auto split: sum.splits)
  have "(case make_all_linestrings_starting_at_2 ?s False of
           Inl e \<Rightarrow> False | Inr s2 \<Rightarrow> True)"
    by code_simp
  then obtain s2 where p2: "make_all_linestrings_starting_at_2 ?s False = Inr s2"
    by (auto split: sum.splits)
  have "(case add_remaining ?s of Inl e \<Rightarrow> False | Inr s3 \<Rightarrow> True)"
    by code_simp
  then obtain s3 where p3: "add_remaining ?s = Inr s3"
    by (auto split: sum.splits)
  from skeleton_tracing_terminates [where self = ?s and b = False and ?self1.0 = s1
      and ?self2.0 = s2 and ?self3.0 = s3] fl0 p1 p2 p3
  show "\<exists>self1 self2 self3.
        make_all_linestrings_starting_at_1 ?s False = Inr self1
        \<and> counts_floor (count_grid self1)
        \<and> make_all_linestrings_starting_at_2 ?s False = Inr self2
        \<and> counts_floor (count_grid self2)
        \<and> add_remaining ?s = Inr self3
        \<and> counts_floor (count_grid self3)"
    by simp
next
  have "\<forall>x \<in> set (all_cells junction_mask). cells junction_mask x \<ge> 0"
    by code_simp
  with skeleton_tracing_terminates [where thin_grid = junction_mask]
  show "\<exists>final. trace_skeleton junction_mask = Inr final
         \<and> \<not> np_any (\<lambda>v. v > 0) (count_grid final)
         \<and> counts_floor (count_grid final)
         \<and> - int (nrows (count_grid final) * ncols (count_grid final))
             \<le> count_total (count_grid final)"
    by blast
qed

text \<open>
  Claim C1: every adjacency of a connected thinned mask occurs exactly once as a
  consecutive pair of the emitted chains. The code misses one on a closed loop. On the
  loop of four cells the only emitted chain runs through the four cells once and is not
  closed: the cells \<open>(2, 1)\<close> and \<open>(1, 2)\<close> of the padded grid are adjacent mask cells, and
  the pair occurs in no chain. The investigation recursed into the start cell when its
  count had reached 0, found no neighbour there and removed the cell it had just
  appended.
\<close>

theorem loop_closing_edge_is_dropped:
  "(case trace_skeleton loop_mask of
      Inl e \<Rightarrow> None
    | Inr self \<Rightarrow>
        Some (emitted_chains self,
              mask_adjacent (clean_embed self) (2, 1) (1, 2),
              edge_occurrences (emitted_chains self) (2, 1) (1, 2)))
   = Some ([[(1, 2), (2, 3), (3, 2), (2, 1)]], True, 0)"
  by code_simp

text \<open>
  Claim C2: no entry of the connectivity-count grid is ever negative. The code lowers
  the count of a cell on entry to every investigation, also when that count is already
  0: in the recursion on the loop mask, and in \<open>add_remaining\<close> on the T-shaped mask,
  whose sweep investigates every cell that had a positive count when the sweep began.
  Both runs end with a count of -1.
\<close>

theorem counts_become_negative:
  "(case trace_skeleton loop_mask of
      Inl e \<Rightarrow> None | Inr self \<Rightarrow> Some (cells (count_grid self) (1, 2))) = Some (- 1)
   \<and> (case trace_skeleton junction_mask of
      Inl e \<Rightarrow> None | Inr self \<Rightarrow> Some (cells (count_grid self) (3, 2))) = Some (- 1)"
  by code_simp

lemma connect_to_base_waterways_raises:
  assumes "lines \<noteq> []" and "hd lines \<noteq> []"
  shows "connect_to_base_waterways None unary_union reference_waterway_data lines
    = Inl AttributeError"
  using assms by (cases lines) (simp_all add: connect_to_base_waterways_def)

text \<open>
  Claim C8: the geometry assembler completes without raising when at least one line was
  traced. It raises on the first line: \<open>connect_to_base_waterways\<close> reads
  \<open>self.connecting_dict\<close>, which no statement assigns. For the thin grid of two adjacent
  skeleton cells the tracer emits the chain \<open>[(1, 1), (1, 2)]\<close> and the constructor ends
  with AttributeError.
\<close>

theorem assembler_raises_attribute_error:
  "(case trace_skeleton (of_rows 0 [[1, 1]]) of
        Inl e \<Rightarrow> [] | Inr self \<Rightarrow> line_strings self) = [[(1, 1), (1, 2)]]
   \<and> Vectorizer_init (of_rows 0 [[1, 1]]) []
        \<lparr>x_min = 0, y_max = 0, x_res = 1, y_res = 1\<rparr> (\<lambda>ls. ls) (\<lambda>ls. ls)
      = Inl AttributeError"
  by code_simp

end
